theory Spec2Isabelle
  imports Main
begin

section \<open>Values, errors and the remote service\<close>

text \<open>
  The program is a Python 2 script (\<^verbatim>\<open>e621dl.py\<close>) with one helper module
  (\<^verbatim>\<open>lib/api.py\<close>). No exception is caught anywhere in either file, so an exception
  raised by a helper ends the run: every function below returns \<open>Inl\<close> for it and the
  callers pass it on.
\<close>

datatype error = IOError | ValueError | KeyError | IndexError | AttributeError

text \<open>A value stored in a field of a named tuple.\<close>

datatype attr_value = IntV int | StrV string

text \<open>
  \<^verbatim>\<open>Post = namedtuple('Post', 'url id md5 ext tags')\<close>; \<open>tags\<close> is the post's
  tag string as the remote sends it, the tags separated by whitespace.
\<close>

record Post =
  url :: string
  post_id :: int
  md5 :: string
  ext :: string
  tags :: string

text \<open>
  \<^verbatim>\<open>UserTag = namedtuple('UserTag', 'aliasz_id name')\<close>: a named tuple is given by its
  field names and the values stored under them, and reading an attribute that is not one
  of the field names raises AttributeError.
\<close>

type_synonym namedtuple = "(string \<times> attr_value) list"

definition UserTag :: "int \<Rightarrow> string \<Rightarrow> namedtuple" where
  "UserTag a n = [(''aliasz_id'', IntV a), (''name'', StrV n)]"

definition getattr :: "namedtuple \<Rightarrow> string \<Rightarrow> error + attr_value" where
  "getattr t a = (case map_of t a of None \<Rightarrow> Inl AttributeError | Some v \<Rightarrow> Inr v)"

text \<open>
  The configuration dictionary, with the keys the update and wrap-up phases read.
\<close>

record config =
  last_run :: string
  download_directory :: string
  parallel_downloads :: nat
  cache_name :: string
  cache_size :: nat

text \<open>
  Everything the run does to the outside world is recorded, in order, in a trace: the
  requests sent to the remote service, the pushes to the cache, the call of the
  downloader and the write of the configuration file.
\<close>

datatype request =
    PostIndex string string nat nat
  | TagAliasIndex string
  | TagShow attr_value

datatype event =
    Request request
  | CachePush string
  | MultiDownload "(string \<times> string) list" nat
  | ConfigWrite config

text \<open>
  The collaborators that are not part of the two source files are parameters of the
  model:
  \<^item> the remote service, as the decoded answer to each request (\<open>Inl\<close> when opening
    the URL, decoding the JSON or reading a key raises); the request URL is a function of
    the arguments the answers are indexed by;
  \<^item> \<^verbatim>\<open>default.MAX_RESULTS\<close> and \<^verbatim>\<open>strftime(default.DATETIME_FMT)\<close> on a date
    given by its proleptic Gregorian ordinal;
  \<^item> \<^verbatim>\<open>support.safe_filename\<close>, \<^verbatim>\<open>os.path.isfile\<close>, the ordinal of
    \<^verbatim>\<open>datetime.date.today()\<close>;
  \<^item> \<^verbatim>\<open>downloader.multi_download\<close>, as the per-task outcomes of a batch (or the
    exception it raises); the script ignores what it returns;
  \<^item> whether the configuration file can be opened for writing.
\<close>

record env =
  posts_index :: "string \<Rightarrow> string \<Rightarrow> nat \<Rightarrow> nat \<Rightarrow> error + Post list"
  tag_alias_index :: "string \<Rightarrow> error + (int \<times> string) list"
  tag_show :: "attr_value \<Rightarrow> error + string list"
  MAX_RESULTS :: nat
  strftime :: "int \<Rightarrow> string"
  safe_filename :: "string \<Rightarrow> Post \<Rightarrow> config \<Rightarrow> string"
  isfile :: "string \<Rightarrow> bool"
  today :: int
  downloader :: "(string \<times> string) list \<Rightarrow> nat \<Rightarrow> error + bool list"
  config_writable :: bool

type_synonym 'a io = "(error + 'a) \<times> event list"

section \<open>lib/api.py\<close>

text \<open>\<^verbatim>\<open>get_posts(search_string, uploaded_after, page_number, max_results)\<close>\<close>

definition get_posts ::
  "env \<Rightarrow> string \<Rightarrow> string \<Rightarrow> nat \<Rightarrow> nat \<Rightarrow> event list \<Rightarrow> Post list io" where
  "get_posts e search_string uploaded_after page_number max_results tr =
     (posts_index e search_string uploaded_after page_number max_results,
      tr @ [Request (PostIndex search_string uploaded_after page_number max_results)])"

text \<open>
  \<^verbatim>\<open>get_alias(tag)\<close>. The records of the alias index are stored as \<open>UserTag\<close> tuples;
  an empty answer returns the empty string; when the first record's name is the tag,
  the request of the second lookup is built from \<^verbatim>\<open>user_tags[0].alias_id\<close>, and
  the name of the first tag in its answer (\<^verbatim>\<open>aliased_tags[0].name\<close>) is returned.
\<close>

definition get_alias :: "env \<Rightarrow> string \<Rightarrow> event list \<Rightarrow> string io" where
  "get_alias e tag tr =
     (let tr1 = tr @ [Request (TagAliasIndex tag)] in
      case tag_alias_index e tag of
        Inl err \<Rightarrow> (Inl err, tr1)
      | Inr results \<Rightarrow>
          (let user_tags = map (\<lambda>(a, n). UserTag a n) results in
           case user_tags of
             [] \<Rightarrow> (Inr '''', tr1)
           | u # _ \<Rightarrow>
               (case getattr u ''name'' of
                  Inl err \<Rightarrow> (Inl err, tr1)
                | Inr nm \<Rightarrow>
                    if StrV tag = nm then
                      (case getattr u ''alias_id'' of
                         Inl err \<Rightarrow> (Inl err, tr1)
                       | Inr ident \<Rightarrow>
                           (let tr2 = tr1 @ [Request (TagShow ident)] in
                            case tag_show e ident of
                              Inl err \<Rightarrow> (Inl err, tr2)
                            | Inr names \<Rightarrow>
                                (case names of
                                   [] \<Rightarrow> (Inl IndexError, tr2)
                                 | a # _ \<Rightarrow> (Inr a, tr2))))
                    else (Inr tag, tr1))))"

section \<open>Splitting a line into tags\<close>

text \<open>
  \<^verbatim>\<open>str.split()\<close> without arguments: the maximal runs of non-whitespace characters,
  in order; whitespace is what \<^verbatim>\<open>str.isspace\<close> accepts in Python 2.
\<close>

definition isspace :: "char \<Rightarrow> bool" where
  "isspace c \<longleftrightarrow> c \<in> set [CHR '' '', CHR 0x09, CHR 0x0A, CHR 0x0B, CHR 0x0C, CHR 0x0D]"

function str_split :: "string \<Rightarrow> string list" where
  "str_split [] = []"
| "str_split (c # cs) =
     (if isspace c then str_split cs
      else (c # takeWhile (\<lambda>x. \<not> isspace x) cs) # str_split (dropWhile (\<lambda>x. \<not> isspace x) cs))"
  by pat_completeness auto
termination
  by (relation "measure length") (auto simp: length_dropWhile_le less_Suc_eq_le)

text \<open>
  \<^verbatim>\<open>unicode.split()\<close> without arguments, for the tag string of a post, which is a
  unicode object (decoded from JSON): the same runs, with the whitespace of
  \<^verbatim>\<open>unicode.isspace\<close>, which below code point 256 adds the separators U+001C to U+001F,
  U+0085 and U+00A0. A character of a post's tag string stands for the code point of its
  number.
\<close>

definition unicode_isspace :: "char \<Rightarrow> bool" where
  "unicode_isspace c \<longleftrightarrow>
     isspace c \<or> c \<in> set [CHR 0x1C, CHR 0x1D, CHR 0x1E, CHR 0x1F, CHR 0x85, CHR 0xA0]"

function unicode_split :: "string \<Rightarrow> string list" where
  "unicode_split [] = []"
| "unicode_split (c # cs) =
     (if unicode_isspace c then unicode_split cs
      else (c # takeWhile (\<lambda>x. \<not> unicode_isspace x) cs)
             # unicode_split (dropWhile (\<lambda>x. \<not> unicode_isspace x) cs))"
  by pat_completeness auto
termination
  by (relation "measure length") (auto simp: length_dropWhile_le less_Suc_eq_le)

text \<open>\<^verbatim>\<open>'%s %s %s %s %s' % (all_tags[0], ..., all_tags[4])\<close>\<close>

definition format5 :: "string \<Rightarrow> string \<Rightarrow> string \<Rightarrow> string \<Rightarrow> string \<Rightarrow> string" where
  "format5 a b c d f = a @ '' '' @ b @ '' '' @ c @ '' '' @ d @ '' '' @ f"

section \<open>e621dl.py: tag group expansion (lines 102 to 113)\<close>

text \<open>
  \<^verbatim>\<open>for tag in all_tags: if tag not in search_tags.split(): extra_tags.append(get_alias(tag))\<close>
\<close>

fun alias_extra_tags ::
  "env \<Rightarrow> string \<Rightarrow> string list \<Rightarrow> string list \<Rightarrow> event list \<Rightarrow> string list io" where
  "alias_extra_tags e search_tags [] extra_tags tr = (Inr extra_tags, tr)"
| "alias_extra_tags e search_tags (tag # rest) extra_tags tr =
     (if tag \<notin> set (str_split search_tags) then
        (case get_alias e tag tr of
           (Inl err, tr') \<Rightarrow> (Inl err, tr')
         | (Inr a, tr') \<Rightarrow> alias_extra_tags e search_tags rest (extra_tags @ [a]) tr')
      else alias_extra_tags e search_tags rest extra_tags tr)"

text \<open>The result is \<open>(all_tags, search_tags, extra_tags)\<close>.\<close>

definition expand ::
  "env \<Rightarrow> string \<Rightarrow> event list \<Rightarrow> (string list \<times> string \<times> string list) io" where
  "expand e line tr =
     (let all_tags = str_split line in
      if length all_tags > 5 then
        (let search_tags = format5 (all_tags ! 0) (all_tags ! 1) (all_tags ! 2)
                                   (all_tags ! 3) (all_tags ! 4) in
         case alias_extra_tags e search_tags all_tags [] tr of
           (Inl err, tr') \<Rightarrow> (Inl err, tr')
         | (Inr extra_tags, tr') \<Rightarrow> (Inr (all_tags, search_tags, extra_tags), tr'))
      else (Inr (all_tags, line, []), tr))"

section \<open>e621dl.py: accumulation (lines 115 to 127)\<close>

text \<open>
  The \<^verbatim>\<open>while accumulating\<close> loop. It has no bound of its own: when the remote keeps
  answering full pages it never ends, and the model then has no result (\<open>None\<close>).
\<close>

partial_function (option) accumulate ::
  "env \<Rightarrow> string \<Rightarrow> string \<Rightarrow> nat \<Rightarrow> Post list \<Rightarrow> event list \<Rightarrow> (Post list io) option" where
  "accumulate e search_tags uploaded_after current_page potential_downloads tr =
     (case get_posts e search_tags uploaded_after current_page (MAX_RESULTS e) tr of
        (Inl err, tr') \<Rightarrow> Some (Inl err, tr')
      | (Inr links_found, tr') \<Rightarrow>
          if links_found = [] then Some (Inr potential_downloads, tr')
          else if length links_found = MAX_RESULTS e then
            accumulate e search_tags uploaded_after (current_page + 1)
              (potential_downloads @ links_found) tr'
          else Some (Inr (potential_downloads @ links_found), tr'))"

declare accumulate.simps [code]

section \<open>The cache of fingerprints\<close>

text \<open>
  Modelled from the spec: the cache object returned by \<^verbatim>\<open>support.get_cache\<close>, whose
  class is not among the source files. The spec (section 3) describes it as an ordered
  set of fingerprints with a fixed capacity, where inserting a new fingerprint when the
  size equals the capacity evicts the oldest surviving entry (insertion order), and
  where membership test and insertion are the only operations. \<open>entries\<close> is oldest
  first.
\<close>

record cache =
  capacity :: nat
  entries :: "string list"

text \<open>Modelled from the spec: the membership test \<^verbatim>\<open>item.md5 in CACHE\<close>.\<close>

definition cache_member :: "string \<Rightarrow> cache \<Rightarrow> bool" where
  "cache_member x c \<longleftrightarrow> x \<in> set (entries c)"

text \<open>
  Modelled from the spec: the insertion \<^verbatim>\<open>CACHE.push(item.md5)\<close>. A fingerprint that
  is already present changes nothing (the cache is a set); a new one evicts the oldest
  entry when the size equals the capacity.
\<close>

definition cache_push :: "string \<Rightarrow> cache \<Rightarrow> cache" where
  "cache_push x c =
     (if x \<in> set (entries c) then c
      else if length (entries c) = capacity c then c\<lparr>entries := tl (entries c) @ [x]\<rparr>
      else c\<lparr>entries := entries c @ [x]\<rparr>)"

section \<open>e621dl.py: the filter (lines 129 to 179)\<close>

datatype disposition =
  MissingRequiredTag | Blacklisted | AlreadyOnDisk | AlreadyCached | Approved

text \<open>\<^verbatim>\<open>list(set(xs) & set(ys))\<close>, up to the order of the result.\<close>

definition intersection :: "string list \<Rightarrow> string list \<Rightarrow> string list" where
  "intersection xs ys = filter (\<lambda>x. x \<in> set ys) (remdups xs)"

text \<open>The conditions of the \<^verbatim>\<open>if\<close>/\<^verbatim>\<open>elif\<close> chain, in the order of the source.\<close>

definition decide ::
  "env \<Rightarrow> config \<Rightarrow> string list \<Rightarrow> cache \<Rightarrow> string \<Rightarrow> string list \<Rightarrow> string list \<Rightarrow> Post
   \<Rightarrow> disposition" where
  "decide e CONFIG ALIASED_BLACKLIST c line all_tags extra_tags item =
     (let filename = safe_filename e line item CONFIG;
          currentTags = unicode_split (tags item) in
      if length all_tags > 5 \<and> intersection extra_tags currentTags = [] then MissingRequiredTag
      else if intersection ALIASED_BLACKLIST currentTags \<noteq> [] then Blacklisted
      else if isfile e (download_directory CONFIG @ filename) then AlreadyOnDisk
      else if cache_member (md5 item) c then AlreadyCached
      else Approved)"

record counters =
  links_missing_tags :: nat
  links_blacklisted :: nat
  links_in_cache :: nat
  links_on_disk :: nat
  will_download :: nat

definition zero_counters :: counters where
  "zero_counters = \<lparr>links_missing_tags = 0, links_blacklisted = 0, links_in_cache = 0,
     links_on_disk = 0, will_download = 0\<rparr>"

record globals =
  URL_AND_NAME_LIST :: "(string \<times> string) list"
  CACHE :: cache

text \<open>The body of the loop over \<^verbatim>\<open>potential_downloads\<close>, for one item.\<close>

definition process_item ::
  "env \<Rightarrow> config \<Rightarrow> string list \<Rightarrow> string \<Rightarrow> string list \<Rightarrow> string list \<Rightarrow> Post
   \<Rightarrow> globals \<times> counters \<times> event list \<Rightarrow> globals \<times> counters \<times> event list" where
  "process_item e CONFIG ALIASED_BLACKLIST line all_tags extra_tags item s =
     (case s of (g, n, tr) \<Rightarrow>
        (case decide e CONFIG ALIASED_BLACKLIST (CACHE g) line all_tags extra_tags item of
           MissingRequiredTag \<Rightarrow> (g, n\<lparr>links_missing_tags := links_missing_tags n + 1\<rparr>, tr)
         | Blacklisted \<Rightarrow> (g, n\<lparr>links_blacklisted := links_blacklisted n + 1\<rparr>, tr)
         | AlreadyOnDisk \<Rightarrow> (g, n\<lparr>links_on_disk := links_on_disk n + 1\<rparr>, tr)
         | AlreadyCached \<Rightarrow> (g, n\<lparr>links_in_cache := links_in_cache n + 1\<rparr>, tr)
         | Approved \<Rightarrow>
             (g\<lparr>URL_AND_NAME_LIST := URL_AND_NAME_LIST g @
                   [(url item, download_directory CONFIG @ safe_filename e line item CONFIG)],
                CACHE := cache_push (md5 item) (CACHE g)\<rparr>,
              n\<lparr>will_download := will_download n + 1\<rparr>,
              tr @ [CachePush (md5 item)])))"

fun process_items ::
  "env \<Rightarrow> config \<Rightarrow> string list \<Rightarrow> string \<Rightarrow> string list \<Rightarrow> string list \<Rightarrow> Post list
   \<Rightarrow> globals \<times> counters \<times> event list \<Rightarrow> globals \<times> counters \<times> event list" where
  "process_items e CONFIG ALIASED_BLACKLIST line all_tags extra_tags [] s = s"
| "process_items e CONFIG ALIASED_BLACKLIST line all_tags extra_tags (item # rest) s =
     process_items e CONFIG ALIASED_BLACKLIST line all_tags extra_tags rest
       (process_item e CONFIG ALIASED_BLACKLIST line all_tags extra_tags item s)"

text \<open>
  One pass of the loop over \<^verbatim>\<open>TAGS\<close>. The result holds the globals, the counters of
  the line and its \<^verbatim>\<open>potential_downloads\<close>.
\<close>

definition update_line ::
  "env \<Rightarrow> config \<Rightarrow> string list \<Rightarrow> string \<Rightarrow> globals \<Rightarrow> event list
   \<Rightarrow> ((globals \<times> counters \<times> Post list) io) option" where
  "update_line e CONFIG ALIASED_BLACKLIST line g tr =
     (case expand e line tr of
        (Inl err, tr1) \<Rightarrow> Some (Inl err, tr1)
      | (Inr (all_tags, search_tags, extra_tags), tr1) \<Rightarrow>
          (case accumulate e search_tags (last_run CONFIG) 1 [] tr1 of
             None \<Rightarrow> None
           | Some (Inl err, tr2) \<Rightarrow> Some (Inl err, tr2)
           | Some (Inr potential_downloads, tr2) \<Rightarrow>
               if length potential_downloads > 0 then
                 (case process_items e CONFIG ALIASED_BLACKLIST line all_tags extra_tags
                         potential_downloads (g, zero_counters, tr2) of
                    (g', n, tr3) \<Rightarrow> Some (Inr (g', n, potential_downloads), tr3))
               else Some (Inr (g, zero_counters, potential_downloads), tr2)))"

fun update ::
  "env \<Rightarrow> config \<Rightarrow> string list \<Rightarrow> string list \<Rightarrow> globals \<Rightarrow> event list
   \<Rightarrow> (globals io) option" where
  "update e CONFIG ALIASED_BLACKLIST [] g tr = Some (Inr g, tr)"
| "update e CONFIG ALIASED_BLACKLIST (line # rest) g tr =
     (case update_line e CONFIG ALIASED_BLACKLIST line g tr of
        None \<Rightarrow> None
      | Some (Inl err, tr') \<Rightarrow> Some (Inl err, tr')
      | Some (Inr (g', n, found), tr') \<Rightarrow> update e CONFIG ALIASED_BLACKLIST rest g' tr')"

section \<open>e621dl.py: the whole run after initialization (lines 72 to 208)\<close>

text \<open>\<^verbatim>\<open>for tag in BLACKLIST: ALIASED_BLACKLIST.append(e621_api.get_alias(tag))\<close>\<close>

fun alias_blacklist :: "env \<Rightarrow> string list \<Rightarrow> string list \<Rightarrow> event list \<Rightarrow> string list io" where
  "alias_blacklist e [] ALIASED_BLACKLIST tr = (Inr ALIASED_BLACKLIST, tr)"
| "alias_blacklist e (tag # rest) ALIASED_BLACKLIST tr =
     (case get_alias e tag tr of
        (Inl err, tr') \<Rightarrow> (Inl err, tr')
      | (Inr a, tr') \<Rightarrow> alias_blacklist e rest (ALIASED_BLACKLIST @ [a]) tr')"

definition multi_download :: "env \<Rightarrow> (string \<times> string) list \<Rightarrow> nat \<Rightarrow> event list \<Rightarrow> unit io" where
  "multi_download e tasks n tr =
     (case downloader e tasks n of
        Inl err \<Rightarrow> (Inl err, tr @ [MultiDownload tasks n])
      | Inr outcomes \<Rightarrow> (Inr (), tr @ [MultiDownload tasks n]))"

text \<open>
  \<^verbatim>\<open>datetime.date.fromordinal\<close>: a date is given by its ordinal, and an ordinal outside
  the years 1 to 9999 raises ValueError.
\<close>

definition fromordinal :: "int \<Rightarrow> error + int" where
  "fromordinal n = (if 1 \<le> n \<and> n \<le> 3652059 then Inr n else Inl ValueError)"

text \<open>The wrap-up phase (lines 194 to 208).\<close>

definition wrap_up :: "env \<Rightarrow> config \<Rightarrow> event list \<Rightarrow> config io" where
  "wrap_up e CONFIG tr =
     (case fromordinal (today e - 1) of
        Inl err \<Rightarrow> (Inl err, tr)
      | Inr YESTERDAY \<Rightarrow>
          (let CONFIG' = CONFIG\<lparr>last_run := strftime e YESTERDAY\<rparr> in
           if config_writable e then (Inr CONFIG', tr @ [ConfigWrite CONFIG'])
           else (Inl IOError, tr)))"

text \<open>
  The download of the accumulated list (lines 181 to 185) followed by the wrap-up. The
  result is the configuration written to the configuration file and the cache.
\<close>

definition download_and_wrap_up ::
  "env \<Rightarrow> config \<Rightarrow> globals \<Rightarrow> event list \<Rightarrow> (config \<times> cache) io" where
  "download_and_wrap_up e CONFIG g tr1 =
     (case (if URL_AND_NAME_LIST g \<noteq> []
            then multi_download e (URL_AND_NAME_LIST g) (parallel_downloads CONFIG) tr1
            else (Inr (), tr1)) of
        (Inl err, tr2) \<Rightarrow> (Inl err, tr2)
      | (Inr u, tr2) \<Rightarrow>
          (case wrap_up e CONFIG tr2 of
             (Inl err, tr3) \<Rightarrow> (Inl err, tr3)
           | (Inr CONFIG', tr3) \<Rightarrow> (Inr (CONFIG', CACHE g), tr3)))"

text \<open>The run, from the aliasing of the blacklist to the exit.\<close>

definition run ::
  "env \<Rightarrow> config \<Rightarrow> string list \<Rightarrow> string list \<Rightarrow> cache \<Rightarrow> ((config \<times> cache) io) option" where
  "run e CONFIG TAGS BLACKLIST c =
     (case alias_blacklist e BLACKLIST [] [] of
        (Inl err, tr0) \<Rightarrow> Some (Inl err, tr0)
      | (Inr ALIASED_BLACKLIST, tr0) \<Rightarrow>
          (case update e CONFIG ALIASED_BLACKLIST TAGS
                  \<lparr>URL_AND_NAME_LIST = [], CACHE = c\<rparr> tr0 of
             None \<Rightarrow> None
           | Some (Inl err, tr1) \<Rightarrow> Some (Inl err, tr1)
           | Some (Inr g, tr1) \<Rightarrow> Some (download_and_wrap_up e CONFIG g tr1)))"

section \<open>Notions used in the statements\<close>

text \<open>The posts of page \<open>p\<close> of a search (none when the request fails), and its request.\<close>

definition page_items :: "env \<Rightarrow> string \<Rightarrow> string \<Rightarrow> nat \<Rightarrow> Post list" where
  "page_items e search_tags uploaded_after p =
     (case posts_index e search_tags uploaded_after p (MAX_RESULTS e) of
        Inl err \<Rightarrow> [] | Inr posts \<Rightarrow> posts)"

definition page_request :: "env \<Rightarrow> string \<Rightarrow> string \<Rightarrow> nat \<Rightarrow> event" where
  "page_request e search_tags uploaded_after p =
     Request (PostIndex search_tags uploaded_after p (MAX_RESULTS e))"

text \<open>
  The events of the update phase are requests and cache pushes; the call of the
  downloader and the write of the configuration file belong to what follows it.
\<close>

fun update_event :: "event \<Rightarrow> bool" where
  "update_event (Request r) = True"
| "update_event (CachePush m) = True"
| "update_event (MultiDownload tasks n) = False"
| "update_event (ConfigWrite c) = False"

text \<open>The fingerprints pushed to the cache in a trace, in order.\<close>

fun pushes :: "event list \<Rightarrow> string list" where
  "pushes [] = []"
| "pushes (CachePush m # es) = m # pushes es"
| "pushes (Request r # es) = pushes es"
| "pushes (MultiDownload tasks n # es) = pushes es"
| "pushes (ConfigWrite c # es) = pushes es"

text \<open>Each fingerprint of the list is absent from the cache at the moment it is pushed.\<close>

fun pushes_fresh :: "cache \<Rightarrow> string list \<Rightarrow> bool" where
  "pushes_fresh c [] = True"
| "pushes_fresh c (m # ms) = (\<not> cache_member m c \<and> pushes_fresh (cache_push m c) ms)"

section \<open>Example inputs\<close>

text \<open>
  A remote service that knows the tags \<open>f\<close> and \<open>g\<close> under the names they are asked
  by, lists \<open>kitty\<close> as an alias (of the tag with identifier 7, named \<open>cat\<close>) and knows
  no other tag; it has no posts.
\<close>

definition alias_env :: env where
  "alias_env = \<lparr>posts_index = (\<lambda>s d p l. Inr []),
     tag_alias_index = (\<lambda>t. if t = ''kitty'' then Inr [(7, ''kitty'')]
                          else if t = ''f'' then Inr [(3, ''ff'')]
                          else if t = ''g'' then Inr [(4, ''gg'')]
                          else Inr []),
     tag_show = (\<lambda>v. if v = IntV 7 then Inr [''cat''] else Inl IOError),
     MAX_RESULTS = 50,
     strftime = (\<lambda>n. if n = 737999 then ''2021-07-28''
                     else if n = 738000 then ''2021-07-29'' else ''another day''),
     safe_filename = (\<lambda>l p c. ext p),
     isfile = (\<lambda>p. False),
     today = 738000,
     downloader = (\<lambda>t n. Inr (map (\<lambda>x. True) t)),
     config_writable = True\<rparr>"

definition example_config :: config where
  "example_config = \<lparr>last_run = ''2020-01-01'', download_directory = ''downloads/'',
     parallel_downloads = 2, cache_name = ''.cache'', cache_size = 1\<rparr>"

definition example_post :: "string \<Rightarrow> string \<Rightarrow> Post" where
  "example_post m t = \<lparr>url = ''http://'' @ m, post_id = 1, md5 = m, ext = m @ ''.jpg'', tags = t\<rparr>"

definition example_cache :: cache where
  "example_cache = \<lparr>capacity = 1, entries = []\<rparr>"

definition roomy_cache :: cache where
  "roomy_cache = \<lparr>capacity = 2, entries = []\<rparr>"

text \<open>
  A remote whose search answers three pages of 50, 50 and 37 posts and then empty pages,
  for a page size of 50.
\<close>

definition pages_env :: env where
  "pages_env = alias_env\<lparr>posts_index :=
     (\<lambda>s d p l. if p = 1 \<or> p = 2 then Inr (replicate 50 (example_post ''m'' ''a''))
                else if p = 3 then Inr (replicate 37 (example_post ''m'' ''a''))
                else Inr [])\<rparr>"

text \<open>
  A remote with a page size of 2 whose search answers a full first page and fails on the
  second page.
\<close>

definition failing_env :: env where
  "failing_env = alias_env\<lparr>MAX_RESULTS := 2, posts_index :=
     (\<lambda>s d p l. if p = 1 then Inr [example_post ''m1'' ''a'', example_post ''m2'' ''a'']
                else Inl IOError)\<rparr>"

text \<open>
  A remote whose search for \<open>a\<close> answers one page of two posts, and a downloader that
  reports the first download of a batch as failed.
\<close>

definition two_posts_env :: env where
  "two_posts_env = alias_env\<lparr>posts_index :=
       (\<lambda>s d p l. if p = 1 then Inr [example_post ''m1'' ''a'', example_post ''m2'' ''a'']
                  else Inr []),
     downloader := (\<lambda>t n. Inr (False # map (\<lambda>x. True) (tl t)))\<rparr>"

section \<open>Splitting and tag group expansion\<close>

lemma str_split_token:
  "t \<in> set (str_split s) \<Longrightarrow> t \<noteq> [] \<and> (\<forall>c\<in>set t. \<not> isspace c)"
proof (induction s rule: str_split.induct)
  case 1
  then show ?case by simp
next
  case (2 c cs)
  show ?case
  proof (cases "isspace c")
    case True
    then have "t \<in> set (str_split cs)" using "2.prems" by simp
    then show ?thesis using "2.IH"(1) True by blast
  next
    case False
    then have "t = c # takeWhile (\<lambda>x. \<not> isspace x) cs
        \<or> t \<in> set (str_split (dropWhile (\<lambda>x. \<not> isspace x) cs))"
      using "2.prems" by simp
    then show ?thesis
    proof
      assume t: "t = c # takeWhile (\<lambda>x. \<not> isspace x) cs"
      have "\<forall>x\<in>set (takeWhile (\<lambda>x. \<not> isspace x) cs). \<not> isspace x"
        using set_takeWhileD [of _ "\<lambda>x. \<not> isspace x" cs] by blast
      then show ?thesis using False t by simp
    next
      assume "t \<in> set (str_split (dropWhile (\<lambda>x. \<not> isspace x) cs))"
      then show ?thesis using "2.IH"(2) False by blast
    qed
  qed
qed

lemma str_split_word_sep:
  assumes "t \<noteq> []" and "\<forall>c\<in>set t. \<not> isspace c"
  shows "str_split (t @ CHR '' '' # s) = t # str_split s"
proof -
  obtain c cs where t: "t = c # cs" using assms(1) by (cases t) auto
  have sp: "isspace (CHR '' '')" by (simp add: isspace_def)
  have tw: "takeWhile (\<lambda>x. \<not> isspace x) (cs @ CHR '' '' # s) = cs"
    using assms(2) sp by (simp add: t takeWhile_append2 takeWhile_tail)
  have dw: "dropWhile (\<lambda>x. \<not> isspace x) (cs @ CHR '' '' # s) = CHR '' '' # s"
    using assms(2) sp by (simp add: t dropWhile_append2)
  show ?thesis using assms(2) sp by (simp add: t tw dw)
qed

lemma str_split_word:
  assumes "t \<noteq> []" and "\<forall>c\<in>set t. \<not> isspace c"
  shows "str_split t = [t]"
proof -
  obtain c cs where t: "t = c # cs" using assms(1) by (cases t) auto
  have tw: "takeWhile (\<lambda>x. \<not> isspace x) cs = cs"
    using assms(2) by (simp add: t)
  have dw: "dropWhile (\<lambda>x. \<not> isspace x) cs = []"
    using assms(2) by (simp add: t)
  show ?thesis using assms(2) by (simp add: t tw dw)
qed

lemma str_split_format5:
  assumes "\<forall>t\<in>set [a, b, c, d, f]. t \<noteq> [] \<and> (\<forall>x\<in>set t. \<not> isspace x)"
  shows "str_split (format5 a b c d f) = [a, b, c, d, f]"
  using assms by (simp add: format5_def str_split_word_sep str_split_word)

lemma take5_nth:
  assumes "5 < length xs"
  shows "take 5 xs = [xs ! 0, xs ! 1, xs ! 2, xs ! 3, xs ! 4]"
proof (rule nth_equalityI)
  show "length (take 5 xs) = length [xs ! 0, xs ! 1, xs ! 2, xs ! 3, xs ! 4]"
    using assms by simp
next
  fix i
  assume "i < length (take 5 xs)"
  then have i: "i = 0 \<or> i = 1 \<or> i = 2 \<or> i = 3 \<or> i = 4"
    by auto
  show "take 5 xs ! i = [xs ! 0, xs ! 1, xs ! 2, xs ! 3, xs ! 4] ! i"
    using i by (elim disjE) simp_all
qed

lemma search_tags_split:
  assumes "5 < length (str_split line)"
  shows "str_split (format5 (str_split line ! 0) (str_split line ! 1) (str_split line ! 2)
           (str_split line ! 3) (str_split line ! 4)) = take 5 (str_split line)"
proof -
  have "\<forall>t\<in>set (take 5 (str_split line)). t \<noteq> [] \<and> (\<forall>x\<in>set t. \<not> isspace x)"
    using str_split_token by (meson in_set_takeD)
  then show ?thesis
    using assms by (simp add: take5_nth str_split_format5)
qed


lemma get_alias_value:
  "fst (get_alias e t tr) = fst (get_alias e t [])"
  by (simp add: get_alias_def Let_def split: sum.splits list.splits)

lemma get_alias_trace:
  "\<exists>rs. snd (get_alias e t tr) = tr @ map Request rs"
proof -
  have a: "tr @ [Request r] = tr @ map Request [r]" for r by simp
  have b: "tr @ [Request r, Request q] = tr @ map Request [r, q]" for r q by simp
  show ?thesis
    unfolding get_alias_def Let_def
    by (auto split: sum.splits list.splits intro: exI [of _ "[_]"] exI [of _ "[_, _]"])
qed

lemma alias_extra_tags_value:
  "alias_extra_tags e st ts acc tr = (Inr xs, tr') \<Longrightarrow>
   map Inr xs = map Inr acc @ map (\<lambda>t. fst (get_alias e t [])) (filter (\<lambda>t. t \<notin> set (str_split st)) ts)"
proof (induction ts arbitrary: acc tr)
  case Nil
  then show ?case by simp
next
  case (Cons t ts)
  show ?case
  proof (cases "t \<in> set (str_split st)")
    case True
    then show ?thesis using Cons by simp
  next
    case False
    obtain r tr1 where g: "get_alias e t tr = (r, tr1)" by (cases "get_alias e t tr")
    show ?thesis
    proof (cases r)
      case (Inl err)
      then show ?thesis using Cons.prems False g by simp
    next
      case (Inr a)
      then have "alias_extra_tags e st ts (acc @ [a]) tr1 = (Inr xs, tr')"
        using Cons.prems False g by simp
      from Cons.IH [OF this] have
        "map Inr xs = map Inr (acc @ [a]) @
           map (\<lambda>t. fst (get_alias e t [])) (filter (\<lambda>t. t \<notin> set (str_split st)) ts)" .
      moreover have "fst (get_alias e t []) = Inr a"
        using g Inr get_alias_value [of e t tr] by simp
      ultimately show ?thesis using False by simp
    qed
  qed
qed

lemma filter_prefix_disjoint:
  "set xs \<inter> set ys = {} \<Longrightarrow> filter (\<lambda>t. t \<notin> set xs) (xs @ ys) = ys"
  by (auto simp: filter_empty_conv filter_id_conv)

text \<open>
  What an expansion that returns holds: the tokens of the line; with at most five tokens
  a search clause that splits into all of them and no extra tags; with more than five a
  search clause that splits into the first five, and as extra tags the results of
  \<open>get_alias\<close> on the tokens that are not among those five.
\<close>

lemma expand_returns:
  assumes "expand e line tr = (Inr (all_tags, search_tags, extra_tags), tr')"
  shows "all_tags = str_split line \<and>
    (length (str_split line) \<le> 5 \<longrightarrow>
       str_split search_tags = str_split line \<and> extra_tags = []) \<and>
    (5 < length (str_split line) \<longrightarrow>
       str_split search_tags = take 5 (str_split line) \<and>
       map Inr extra_tags =
         map (\<lambda>t. fst (get_alias e t []))
           (filter (\<lambda>t. t \<notin> set (take 5 (str_split line))) (str_split line))) \<and>
    (length (str_split line) = 7 \<and> distinct (str_split line) \<longrightarrow>
       length (str_split search_tags) = 5 \<and> length extra_tags = 2)"
proof (cases "5 < length (str_split line)")
  case False
  then show ?thesis using assms by (auto simp: expand_def Let_def)
next
  case True
  let ?st = "format5 (str_split line ! 0) (str_split line ! 1) (str_split line ! 2)
           (str_split line ! 3) (str_split line ! 4)"
  have st: "str_split ?st = take 5 (str_split line)"
    using True by (rule search_tags_split)
  obtain r tr1 where a: "alias_extra_tags e ?st (str_split line) [] tr = (r, tr1)"
    by (cases "alias_extra_tags e ?st (str_split line) [] tr")
  have r: "r = Inr extra_tags" and s: "search_tags = ?st" and al: "all_tags = str_split line"
    using assms True a by (auto simp: expand_def Let_def split: sum.splits)
  have ex: "map Inr extra_tags =
         map (\<lambda>t. fst (get_alias e t []))
           (filter (\<lambda>t. t \<notin> set (take 5 (str_split line))) (str_split line))"
    using alias_extra_tags_value [OF a [unfolded r]] st by simp
  have seven: "length extra_tags = 2"
    if l: "length (str_split line) = 7" and d: "distinct (str_split line)"
  proof -
    have "distinct (take 5 (str_split line) @ drop 5 (str_split line))"
      using d by simp
    then have dd: "set (take 5 (str_split line)) \<inter> set (drop 5 (str_split line)) = {}"
      unfolding distinct_append by blast
    have "filter (\<lambda>t. t \<notin> set (take 5 (str_split line))) (str_split line)
        = drop 5 (str_split line)"
      using filter_prefix_disjoint [OF dd] by simp
    then have "length (map Inr extra_tags :: (error + string) list) = length (drop 5 (str_split line))"
      using ex by simp
    then show ?thesis using l by simp
  qed
  show ?thesis using True al s st ex seven by simp
qed


section \<open>Alias resolution\<close>

lemma get_alias_other_name:
  assumes "tag_alias_index e tag = Inr ((a, n) # rs)" and "n \<noteq> tag"
  shows "get_alias e tag tr = (Inr tag, tr @ [Request (TagAliasIndex tag)])"
  using assms by (auto simp: get_alias_def UserTag_def getattr_def)

lemma get_alias_same_name:
  assumes "tag_alias_index e tag = Inr ((a, tag) # rs)"
  shows "get_alias e tag tr = (Inl AttributeError, tr @ [Request (TagAliasIndex tag)])"
  using assms by (simp add: get_alias_def UserTag_def getattr_def)

text \<open>Whatever \<open>get_alias\<close> returns is the tag it was asked or the empty string.\<close>

lemma get_alias_results:
  assumes "get_alias e tag tr = (Inr a, tr')"
  shows "a = tag \<or> a = ''''"
proof (cases "tag_alias_index e tag")
  case (Inl err)
  then show ?thesis using assms by (simp add: get_alias_def)
next
  case (Inr results)
  show ?thesis
  proof (cases results)
    case Nil
    then show ?thesis using assms Inr by (simp add: get_alias_def)
  next
    case (Cons r rs)
    obtain i n where r: "r = (i, n)" by (cases r)
    show ?thesis
    proof (cases "n = tag")
      case True
      then show ?thesis
        using assms Inr Cons r get_alias_same_name [of e tag i rs tr] by simp
    next
      case False
      then show ?thesis
        using assms Inr Cons r get_alias_other_name [of e tag i n rs tr] by simp
    qed
  qed
qed

text \<open>
  C9. The tag \<open>kitty\<close> has an alias record whose name is the tag itself. The claim has the
  second lookup made and the replacement name \<open>cat\<close> returned; the code raises
  AttributeError while it builds that request, because the tuple's field is called
  \<open>aliasz_id\<close> and the code reads \<open>alias_id\<close>, and the second request is never sent.
\<close>

theorem get_alias_aliased_tag_raises:
  "get_alias alias_env ''kitty'' [] = (Inl AttributeError, [Request (TagAliasIndex ''kitty'')])
   \<and> tag_show alias_env (IntV 7) = Inr [''cat'']"
  by code_simp

text \<open>
  C3. The line \<open>a b c d e kitty\<close> has six tokens, and the sixth, outside the prefix of
  five, is an alias of the tag \<open>cat\<close>. The claim has the search clause \<open>a b c d e\<close> and
  the extra tags \<open>[cat]\<close>; the code raises AttributeError when it resolves \<open>kitty\<close>
  (the defect of C9), so the expansion of this line has no result at all.
\<close>

theorem expand_alias_overflow_raises:
  "str_split ''a b c d e kitty'' = [''a'', ''b'', ''c'', ''d'', ''e'', ''kitty''] \<and>
   tag_alias_index alias_env ''kitty'' = Inr [(7, ''kitty'')] \<and>
   tag_show alias_env (IntV 7) = Inr [''cat''] \<and>
   expand alias_env ''a b c d e kitty'' [] =
     (Inl AttributeError, [Request (TagAliasIndex ''kitty'')])"
  by code_simp

section \<open>The filter\<close>

lemma intersection_empty:
  "intersection xs ys = [] \<longleftrightarrow> set xs \<inter> set ys = {}"
  by (auto simp: intersection_def filter_empty_conv)

lemma expand_extra_tags_overflow:
  assumes "expand e line tr = (Inr (all_tags, search_tags, extra_tags), tr')"
  shows "all_tags = str_split line" and "extra_tags \<noteq> [] \<Longrightarrow> 5 < length (str_split line)"
  using assms by (auto simp: expand_def Let_def split: if_splits prod.splits sum.splits)

lemma unicode_split_nonempty:
  "t \<in> set (unicode_split s) \<Longrightarrow> t \<noteq> []"
proof (induction s rule: unicode_split.induct)
  case 1
  then show ?case by simp
next
  case (2 c cs)
  show ?case
  proof (cases "unicode_isspace c")
    case True
    then have "t \<in> set (unicode_split cs)" using "2.prems" by simp
    then show ?thesis using "2.IH"(1) True by blast
  next
    case False
    then have "t = c # takeWhile (\<lambda>x. \<not> unicode_isspace x) cs
        \<or> t \<in> set (unicode_split (dropWhile (\<lambda>x. \<not> unicode_isspace x) cs))"
      using "2.prems" by simp
    then show ?thesis
    proof
      assume "t = c # takeWhile (\<lambda>x. \<not> unicode_isspace x) cs"
      then show ?thesis by simp
    next
      assume "t \<in> set (unicode_split (dropWhile (\<lambda>x. \<not> unicode_isspace x) cs))"
      then show ?thesis using "2.IH"(2) False by blast
    qed
  qed
qed

lemma empty_not_token: "'''' \<notin> set (unicode_split s)"
  using unicode_split_nonempty [of "''''" s] by blast

text \<open>
  The chain on the groups whose head check is the one the spec words, that is, on every
  group of a line of at most five tokens or with an extra tag: the first reason that
  matches is the disposition.
\<close>

lemma decide_precedence:
  assumes "expand e line tr = (Inr (all_tags, search_tags, extra_tags), tr')"
    and "length (str_split line) \<le> 5 \<or> extra_tags \<noteq> []"
  shows
    "(decide e CONFIG bl c line all_tags extra_tags item = MissingRequiredTag \<longleftrightarrow>
        extra_tags \<noteq> [] \<and> set extra_tags \<inter> set (unicode_split (tags item)) = {}) \<and>
     (decide e CONFIG bl c line all_tags extra_tags item = Blacklisted \<longleftrightarrow>
        \<not> (extra_tags \<noteq> [] \<and> set extra_tags \<inter> set (unicode_split (tags item)) = {}) \<and>
        set bl \<inter> set (unicode_split (tags item)) \<noteq> {}) \<and>
     (decide e CONFIG bl c line all_tags extra_tags item = AlreadyOnDisk \<longleftrightarrow>
        \<not> (extra_tags \<noteq> [] \<and> set extra_tags \<inter> set (unicode_split (tags item)) = {}) \<and>
        set bl \<inter> set (unicode_split (tags item)) = {} \<and>
        isfile e (download_directory CONFIG @ safe_filename e line item CONFIG)) \<and>
     (decide e CONFIG bl c line all_tags extra_tags item = AlreadyCached \<longleftrightarrow>
        \<not> (extra_tags \<noteq> [] \<and> set extra_tags \<inter> set (unicode_split (tags item)) = {}) \<and>
        set bl \<inter> set (unicode_split (tags item)) = {} \<and>
        \<not> isfile e (download_directory CONFIG @ safe_filename e line item CONFIG) \<and>
        cache_member (md5 item) c) \<and>
     (decide e CONFIG bl c line all_tags extra_tags item = Approved \<longleftrightarrow>
        \<not> (extra_tags \<noteq> [] \<and> set extra_tags \<inter> set (unicode_split (tags item)) = {}) \<and>
        set bl \<inter> set (unicode_split (tags item)) = {} \<and>
        \<not> isfile e (download_directory CONFIG @ safe_filename e line item CONFIG) \<and>
        \<not> cache_member (md5 item) c)"
proof -
  note a = expand_extra_tags_overflow [OF assms(1)]
  have h: "5 < length all_tags \<and> intersection extra_tags (unicode_split (tags item)) = [] \<longleftrightarrow>
      extra_tags \<noteq> [] \<and> set extra_tags \<inter> set (unicode_split (tags item)) = {}"
    using a assms(2) by (auto simp: intersection_empty)
  have d: "decide e CONFIG bl c line all_tags extra_tags item =
      (if extra_tags \<noteq> [] \<and> set extra_tags \<inter> set (unicode_split (tags item)) = {}
         then MissingRequiredTag
       else if set bl \<inter> set (unicode_split (tags item)) \<noteq> {} then Blacklisted
       else if isfile e (download_directory CONFIG @ safe_filename e line item CONFIG)
         then AlreadyOnDisk
       else if cache_member (md5 item) c then AlreadyCached else Approved)"
    unfolding decide_def Let_def h by (simp add: intersection_empty)
  show ?thesis unfolding d by simp
qed

text \<open>
  C1. The line \<open>a b c d e a\<close> has no extra tags, so an item tagged \<open>a b c d e bad\<close>
  lacks no required tag, and with \<open>bad\<close> on the blacklist the first reason of the order
  that matches it is Blacklisted, which is what the code reports on the line
  \<open>a b c d e\<close>. On the six-token line the code reports MissingRequiredTag for it, for
  every remote, configuration and cache: its first check counts the tokens of the line
  (the defect of C4), so a reason that does not match wins over one that does.
\<close>

theorem duplicate_overflow_hides_blacklisted:
  "expand e ''a b c d e a'' tr =
     (Inr ([''a'', ''b'', ''c'', ''d'', ''e'', ''a''], ''a b c d e'', []), tr)
   \<and> intersection [''bad''] (unicode_split (tags (example_post ''m1'' ''a b c d e bad''))) = [''bad'']
   \<and> decide e CONFIG [''bad''] c ''a b c d e a'' [''a'', ''b'', ''c'', ''d'', ''e'', ''a''] []
        (example_post ''m1'' ''a b c d e bad'') = MissingRequiredTag
   \<and> decide e CONFIG [''bad''] c ''a b c d e'' [''a'', ''b'', ''c'', ''d'', ''e''] []
        (example_post ''m1'' ''a b c d e bad'') = Blacklisted"
proof -
  have s: "str_split ''a b c d e a'' = [''a'', ''b'', ''c'', ''d'', ''e'', ''a'']"
    by code_simp
  have f: "format5 ''a'' ''b'' ''c'' ''d'' ''e'' = ''a b c d e''"
    by code_simp
  have t: "str_split ''a b c d e'' = [''a'', ''b'', ''c'', ''d'', ''e'']"
    by code_simp
  have x: "expand e ''a b c d e a'' tr =
     (Inr ([''a'', ''b'', ''c'', ''d'', ''e'', ''a''], ''a b c d e'', []), tr)"
    by (simp add: expand_def s f t del: str_split.simps)
  have i: "intersection [''bad''] (unicode_split (tags (example_post ''m1'' ''a b c d e bad'')))
      = [''bad'']"
    by code_simp
  have m: "decide e CONFIG [''bad''] c ''a b c d e a'' [''a'', ''b'', ''c'', ''d'', ''e'', ''a''] []
        (example_post ''m1'' ''a b c d e bad'') = MissingRequiredTag"
    by (simp add: decide_def intersection_def)
  have b: "decide e CONFIG [''bad''] c ''a b c d e'' [''a'', ''b'', ''c'', ''d'', ''e''] []
        (example_post ''m1'' ''a b c d e bad'') = Blacklisted"
    unfolding decide_def Let_def i by simp
  show ?thesis using x i m b by blast
qed

text \<open>
  C4. The line \<open>a b c d e a\<close> has six tokens, and the sixth is a duplicate of one of the
  first five, so the expansion has no extra tags, for every remote. The claim has no item
  skipped with MissingRequiredTag then; the code reports MissingRequiredTag for every
  item, because its check is on the number of tokens of the line and not on the extra
  tags.
\<close>

theorem duplicate_overflow_reported_missing:
  "expand e ''a b c d e a'' tr = (Inr ([''a'', ''b'', ''c'', ''d'', ''e'', ''a''], ''a b c d e'', []), tr)
   \<and> decide e CONFIG bl c ''a b c d e a'' [''a'', ''b'', ''c'', ''d'', ''e'', ''a''] []
        item = MissingRequiredTag"
proof -
  have s: "str_split ''a b c d e a'' = [''a'', ''b'', ''c'', ''d'', ''e'', ''a'']"
    by code_simp
  have f: "format5 ''a'' ''b'' ''c'' ''d'' ''e'' = ''a b c d e''"
    by code_simp
  have t: "str_split ''a b c d e'' = [''a'', ''b'', ''c'', ''d'', ''e'']"
    by code_simp
  have "expand e ''a b c d e a'' tr = (Inr ([''a'', ''b'', ''c'', ''d'', ''e'', ''a''], ''a b c d e'', []), tr)"
    by (simp add: expand_def s f t del: str_split.simps)
  moreover have "decide e CONFIG bl c ''a b c d e a'' [''a'', ''b'', ''c'', ''d'', ''e'', ''a''] []
        item = MissingRequiredTag"
    by (simp add: decide_def intersection_def)
  ultimately show ?thesis by blast
qed

lemma intersection_drop_empty:
  "intersection (filter (\<lambda>t. t \<noteq> '''') xs) (unicode_split s) = [] \<longleftrightarrow>
   intersection xs (unicode_split s) = []"
  unfolding intersection_empty using empty_not_token [of s] by auto

text \<open>
  An item that carries none of the non-empty extra tags of a group with extra tags is
  skipped with MissingRequiredTag.
\<close>

lemma unmatched_extra_tags_skip:
  assumes h: "expand e line tr = (Inr (all_tags, search_tags, extra_tags), tr') \<and>
    extra_tags \<noteq> [] \<and>
    (\<forall>t\<in>set extra_tags. t \<noteq> '''' \<longrightarrow> t \<notin> set (unicode_split (tags item)))"
  shows "decide e CONFIG bl c line all_tags extra_tags item = MissingRequiredTag"
proof -
  from h have x: "expand e line tr = (Inr (all_tags, search_tags, extra_tags), tr')"
    and ne: "extra_tags \<noteq> []"
    and u: "\<forall>t\<in>set extra_tags. t \<noteq> '''' \<longrightarrow> t \<notin> set (unicode_split (tags item))"
    by blast+
  have l: "5 < length all_tags"
    using expand_extra_tags_overflow [OF x] ne by simp
  have "t \<notin> set (unicode_split (tags item))" if "t \<in> set extra_tags" for t
  proof (cases "t = ''''")
    case True
    then show ?thesis using empty_not_token [of "tags item"] by simp
  next
    case False
    then show ?thesis using u that by blast
  qed
  then have "set extra_tags \<inter> set (unicode_split (tags item)) = {}"
    by blast
  then have "intersection extra_tags (unicode_split (tags item)) = []"
    by (simp add: intersection_empty)
  then show "decide e CONFIG bl c line all_tags extra_tags item = MissingRequiredTag"
    using l by (simp add: decide_def)
qed

text \<open>
  C7, as amended. A tag for which the alias index has no record resolves to the empty
  string, without an exception. The empty string is never one of an item's tags. On the
  blacklist it counts for nothing: taking it out changes no disposition, and a Blacklisted
  skip is always due to a non-empty blacklist entry among the item's tags. Among the extra
  tags of a group it is a required tag that no item carries: an item that carries none of
  the other extra tags is skipped with MissingRequiredTag, so a group whose extra tags are
  all unknown skips every item.
\<close>

theorem unknown_tag_inert:
  "(tag_alias_index e tag = Inr [] \<longrightarrow>
      get_alias e tag tr = (Inr '''', tr @ [Request (TagAliasIndex tag)])) \<and>
   decide e CONFIG bl c line all_tags extra_tags item =
     decide e CONFIG (filter (\<lambda>t. t \<noteq> '''') bl) c line all_tags extra_tags item \<and>
   (decide e CONFIG bl c line all_tags extra_tags item = Blacklisted \<longrightarrow>
      (\<exists>t. t \<in> set bl \<and> t \<noteq> '''' \<and> t \<in> set (unicode_split (tags item)))) \<and>
   (expand e line tr = (Inr (all_tags, search_tags, extra_tags), tr') \<and> extra_tags \<noteq> [] \<and>
    (\<forall>t\<in>set extra_tags. t \<noteq> '''' \<longrightarrow> t \<notin> set (unicode_split (tags item))) \<longrightarrow>
      decide e CONFIG bl c line all_tags extra_tags item = MissingRequiredTag)"
proof (intro conjI impI)
  assume "tag_alias_index e tag = Inr []"
  then show "get_alias e tag tr = (Inr '''', tr @ [Request (TagAliasIndex tag)])"
    by (simp add: get_alias_def)
next
  show "decide e CONFIG bl c line all_tags extra_tags item =
     decide e CONFIG (filter (\<lambda>t. t \<noteq> '''') bl) c line all_tags extra_tags item"
    by (simp add: decide_def Let_def intersection_drop_empty)
next
  assume "decide e CONFIG bl c line all_tags extra_tags item = Blacklisted"
  then have "intersection bl (unicode_split (tags item)) \<noteq> []"
    by (simp add: decide_def Let_def split: if_splits)
  then obtain t where "t \<in> set bl" and "t \<in> set (unicode_split (tags item))"
    unfolding intersection_empty by blast
  then show "\<exists>t. t \<in> set bl \<and> t \<noteq> '''' \<and> t \<in> set (unicode_split (tags item))"
    using empty_not_token [of "tags item"] by blast
next
  assume "expand e line tr = (Inr (all_tags, search_tags, extra_tags), tr') \<and>
    extra_tags \<noteq> [] \<and>
    (\<forall>t\<in>set extra_tags. t \<noteq> '''' \<longrightarrow> t \<notin> set (unicode_split (tags item)))"
  then show "decide e CONFIG bl c line all_tags extra_tags item = MissingRequiredTag"
    by (rule unmatched_extra_tags_skip)
qed

text \<open>
  C7 as stated fails: \<open>zz\<close> is unknown to the alias index; on the line
  \<open>a b c d e zz\<close> it is the only extra tag and an item tagged \<open>a b c d e\<close> is
  skipped with MissingRequiredTag, while on the line without it the same item is approved.
\<close>

theorem unknown_tag_counterexample:
  "get_alias alias_env ''zz'' [] = (Inr '''', [Request (TagAliasIndex ''zz'')]) \<and>
   expand alias_env ''a b c d e zz'' [] =
     (Inr ([''a'', ''b'', ''c'', ''d'', ''e'', ''zz''], ''a b c d e'', ['''']),
      [Request (TagAliasIndex ''zz'')]) \<and>
   decide alias_env example_config [] example_cache ''a b c d e zz''
     [''a'', ''b'', ''c'', ''d'', ''e'', ''zz''] [''''] (example_post ''m1'' ''a b c d e'')
     = MissingRequiredTag \<and>
   expand alias_env ''a b c d e'' [] =
     (Inr ([''a'', ''b'', ''c'', ''d'', ''e''], ''a b c d e'', []), []) \<and>
   decide alias_env example_config [] example_cache ''a b c d e''
     [''a'', ''b'', ''c'', ''d'', ''e''] [] (example_post ''m1'' ''a b c d e'')
     = Approved"
  by code_simp

text \<open>
  The amended statement at a blacklist that holds an unknown tag, and at a group whose
  only extra tag is unknown.
\<close>

theorem unknown_tag_inert_witness:
  "tag_alias_index alias_env ''zz'' = Inr [] \<and>
   get_alias alias_env ''zz'' [] = (Inr '''', [Request (TagAliasIndex ''zz'')]) \<and>
   decide alias_env example_config [''bad'', ''''] example_cache ''a b c d e''
     [''a'', ''b'', ''c'', ''d'', ''e''] [] (example_post ''m1'' ''a b c d e bad'') = Blacklisted \<and>
   (\<exists>t. t \<in> set [''bad'', ''''] \<and> t \<noteq> '''' \<and>
        t \<in> set (unicode_split (tags (example_post ''m1'' ''a b c d e bad'')))) \<and>
   expand alias_env ''a b c d e zz'' [] =
     (Inr ([''a'', ''b'', ''c'', ''d'', ''e'', ''zz''], ''a b c d e'', ['''']),
      [Request (TagAliasIndex ''zz'')]) \<and>
   decide alias_env example_config [''bad'', ''''] example_cache ''a b c d e zz''
     [''a'', ''b'', ''c'', ''d'', ''e'', ''zz''] [''''] (example_post ''m1'' ''a b c d e bad'')
     = MissingRequiredTag"
proof -
  have a: "tag_alias_index alias_env ''zz'' = Inr []"
    by code_simp
  have d: "decide alias_env example_config [''bad'', ''''] example_cache ''a b c d e''
     [''a'', ''b'', ''c'', ''d'', ''e''] [] (example_post ''m1'' ''a b c d e bad'') = Blacklisted"
    by code_simp
  have x: "expand alias_env ''a b c d e zz'' [] =
     (Inr ([''a'', ''b'', ''c'', ''d'', ''e'', ''zz''], ''a b c d e'', ['''']),
      [Request (TagAliasIndex ''zz'')])"
    by code_simp
  have n: "[''''] \<noteq> ([] :: string list)" by simp
  have u: "\<forall>t\<in>set ['''']. t \<noteq> '''' \<longrightarrow>
      t \<notin> set (unicode_split (tags (example_post ''m1'' ''a b c d e bad'')))"
    by simp
  have one: "get_alias alias_env ''zz'' [] = (Inr '''', [Request (TagAliasIndex ''zz'')]) \<and>
     (\<exists>t. t \<in> set [''bad'', ''''] \<and> t \<noteq> '''' \<and>
        t \<in> set (unicode_split (tags (example_post ''m1'' ''a b c d e bad''))))"
    using unknown_tag_inert [of alias_env "''zz''" "[]" example_config "[''bad'', '''']"
        example_cache "''a b c d e''" "[''a'', ''b'', ''c'', ''d'', ''e'']" "[]"
        "example_post ''m1'' ''a b c d e bad''"] a d
    by simp
  have two: "decide alias_env example_config [''bad'', ''''] example_cache ''a b c d e zz''
     [''a'', ''b'', ''c'', ''d'', ''e'', ''zz''] [''''] (example_post ''m1'' ''a b c d e bad'')
     = MissingRequiredTag"
    using unknown_tag_inert [of alias_env "''zz''" "[]" example_config "[''bad'', '''']"
        example_cache "''a b c d e zz''" "[''a'', ''b'', ''c'', ''d'', ''e'', ''zz'']" "['''']"
        "example_post ''m1'' ''a b c d e bad''" "''a b c d e''"
        "[Request (TagAliasIndex ''zz'')]"] x n u
    by blast
  show ?thesis using a d x one two by blast
qed

section \<open>Accumulation\<close>

lemma accumulate_full_page:
  assumes "posts_index e s d cp (MAX_RESULTS e) = Inr qs"
    and "length qs = MAX_RESULTS e" and "0 < MAX_RESULTS e"
  shows "accumulate e s d cp acc tr =
         accumulate e s d (Suc cp) (acc @ qs) (tr @ [page_request e s d cp])"
proof -
  have "qs \<noteq> []" using assms(2,3) by auto
  then show ?thesis
    using assms(1,2)
    by (subst accumulate.simps) (simp add: get_posts_def page_request_def)
qed

lemma accumulate_short_page:
  assumes "posts_index e s d cp (MAX_RESULTS e) = Inr qs"
    and "length qs < MAX_RESULTS e"
  shows "accumulate e s d cp acc tr = Some (Inr (acc @ qs), tr @ [page_request e s d cp])"
  using assms
  by (subst accumulate.simps) (simp add: get_posts_def page_request_def)

lemma accumulate_failed_page:
  assumes "posts_index e s d cp (MAX_RESULTS e) = Inl err"
  shows "accumulate e s d cp acc tr = Some (Inl err, tr @ [page_request e s d cp])"
  using assms
  by (subst accumulate.simps) (simp add: get_posts_def page_request_def)

lemma accumulate_full_pages:
  assumes "0 < MAX_RESULTS e"
    and "\<forall>p. cp \<le> p \<and> p < k \<longrightarrow>
           (\<exists>qs. posts_index e s d p (MAX_RESULTS e) = Inr qs \<and> length qs = MAX_RESULTS e)"
    and "cp \<le> k"
  shows "accumulate e s d cp acc tr =
         accumulate e s d k (acc @ concat (map (page_items e s d) [cp..<k]))
           (tr @ map (page_request e s d) [cp..<k])"
  using assms(2,3)
proof (induction "k - cp" arbitrary: cp acc tr)
  case 0
  then show ?case by simp
next
  case (Suc n)
  then have lt: "cp < k" by simp
  then obtain qs where qs: "posts_index e s d cp (MAX_RESULTS e) = Inr qs"
    and len: "length qs = MAX_RESULTS e"
    using Suc.prems(1) by blast
  have pi: "page_items e s d cp = qs" by (simp add: page_items_def qs)
  have "accumulate e s d cp acc tr =
        accumulate e s d (Suc cp) (acc @ qs) (tr @ [page_request e s d cp])"
    using qs len assms(1) by (rule accumulate_full_page)
  also have "\<dots> = accumulate e s d k ((acc @ qs) @ concat (map (page_items e s d) [Suc cp..<k]))
           ((tr @ [page_request e s d cp]) @ map (page_request e s d) [Suc cp..<k])"
  proof (rule Suc.hyps(1))
    show "n = k - Suc cp" using Suc.hyps(2) by simp
    show "\<forall>p. Suc cp \<le> p \<and> p < k \<longrightarrow>
           (\<exists>qs. posts_index e s d p (MAX_RESULTS e) = Inr qs \<and> length qs = MAX_RESULTS e)"
      using Suc.prems(1) by simp
    show "Suc cp \<le> k" using lt by simp
  qed
  finally show ?case using lt by (simp add: upt_conv_Cons pi)
qed

text \<open>
  When every page from \<open>cp\<close> on is exactly full, the loop never returns.
\<close>

lemma accumulate_never_returns:
  assumes "0 < MAX_RESULTS e"
    and "\<forall>p. cp \<le> p \<longrightarrow>
           (\<exists>qs. posts_index e s d p (MAX_RESULTS e) = Inr qs \<and> length qs = MAX_RESULTS e)"
  shows "accumulate e s d cp acc tr = None"
proof (rule ccontr)
  assume "accumulate e s d cp acc tr \<noteq> None"
  then obtain y where y: "accumulate e s d cp acc tr = Some y" by auto
  have "\<not> (0 < MAX_RESULTS e \<and> (\<forall>p. cp \<le> p \<longrightarrow>
           (\<exists>qs. posts_index e s d p (MAX_RESULTS e) = Inr qs \<and> length qs = MAX_RESULTS e)))"
    using y
  proof (induction rule: accumulate.raw_induct [rotated 1, consumes 1])
    case (1 accumulate e s d cp acc tr y)
    show ?case
    proof
      assume h: "0 < MAX_RESULTS e \<and> (\<forall>p. cp \<le> p \<longrightarrow>
           (\<exists>qs. posts_index e s d p (MAX_RESULTS e) = Inr qs \<and> length qs = MAX_RESULTS e))"
      then obtain qs where qs: "posts_index e s d cp (MAX_RESULTS e) = Inr qs"
        and len: "length qs = MAX_RESULTS e"
        by blast
      have ne: "qs \<noteq> []" using h len by auto
      have "accumulate e s d (cp + 1) (acc @ qs)
              (tr @ [Request (PostIndex s d cp (MAX_RESULTS e))]) = Some y"
        using 1(2) qs len ne by (simp add: get_posts_def)
      from 1(1) [OF this] have "\<not> (0 < MAX_RESULTS e \<and> (\<forall>p. cp + 1 \<le> p \<longrightarrow>
           (\<exists>qs. posts_index e s d p (MAX_RESULTS e) = Inr qs \<and> length qs = MAX_RESULTS e)))" .
      moreover have "\<forall>p. cp + 1 \<le> p \<longrightarrow>
           (\<exists>qs. posts_index e s d p (MAX_RESULTS e) = Inr qs \<and> length qs = MAX_RESULTS e)"
        using h by simp
      ultimately show False using h by blast
    qed
  qed
  then show False using assms by blast
qed

lemma length_concat_full:
  assumes "\<forall>p\<in>set ps. length (f p) = m"
  shows "length (concat (map f ps)) = length ps * m"
  using assms by (induction ps) simp_all

text \<open>
  C2. Let the remote answer pages 1 to \<open>k - 1\<close> of a search with exactly
  \<open>MAX_RESULTS\<close> posts each and page \<open>k\<close> with fewer (possibly none). Then the
  accumulation returns; it has requested exactly the pages 1 to \<open>k\<close>, in this order, each
  with the search clause, the after-date and the page size; and its result is the
  concatenation of the pages in that order, of \<open>(k - 1) * MAX_RESULTS\<close> posts plus those of
  the last page.
\<close>

theorem accumulate_pages:
  assumes "1 \<le> k"
    and "\<forall>p\<in>{1..<k}. \<exists>qs. posts_index e search_tags uploaded_after p (MAX_RESULTS e) = Inr qs
            \<and> length qs = MAX_RESULTS e"
    and "\<exists>qs. posts_index e search_tags uploaded_after k (MAX_RESULTS e) = Inr qs
            \<and> length qs < MAX_RESULTS e"
  shows "\<exists>items. accumulate e search_tags uploaded_after 1 [] tr =
           Some (Inr items,
                 tr @ map (\<lambda>p. Request (PostIndex search_tags uploaded_after p (MAX_RESULTS e)))
                        [1..<Suc k])
         \<and> items = concat (map (page_items e search_tags uploaded_after) [1..<Suc k])
         \<and> length items = (k - 1) * MAX_RESULTS e + length (page_items e search_tags uploaded_after k)"
proof -
  obtain qs where qs: "posts_index e search_tags uploaded_after k (MAX_RESULTS e) = Inr qs"
    and short: "length qs < MAX_RESULTS e"
    using assms(3) by blast
  have pos: "0 < MAX_RESULTS e" using short by simp
  have full: "\<forall>p. 1 \<le> p \<and> p < k \<longrightarrow>
           (\<exists>qs. posts_index e search_tags uploaded_after p (MAX_RESULTS e) = Inr qs
               \<and> length qs = MAX_RESULTS e)"
    using assms(2) by simp
  have pk: "page_items e search_tags uploaded_after k = qs" by (simp add: page_items_def qs)
  have "accumulate e search_tags uploaded_after 1 [] tr =
        accumulate e search_tags uploaded_after k
          ([] @ concat (map (page_items e search_tags uploaded_after) [1..<k]))
          (tr @ map (page_request e search_tags uploaded_after) [1..<k])"
    using pos full assms(1) by (rule accumulate_full_pages)
  also have "\<dots> = Some (Inr (([] @ concat (map (page_items e search_tags uploaded_after) [1..<k])) @ qs),
     (tr @ map (page_request e search_tags uploaded_after) [1..<k]) @ [page_request e search_tags uploaded_after k])"
    using qs short by (rule accumulate_short_page)
  finally have r: "accumulate e search_tags uploaded_after 1 [] tr =
      Some (Inr (concat (map (page_items e search_tags uploaded_after) [1..<Suc k])),
            tr @ map (page_request e search_tags uploaded_after) [1..<Suc k])"
    using assms(1) by (simp add: pk)
  have "\<forall>p\<in>set [1..<k]. length (page_items e search_tags uploaded_after p) = MAX_RESULTS e"
    using assms(2) by (auto simp: page_items_def)
  then have "length (concat (map (page_items e search_tags uploaded_after) [1..<k])) = (k - 1) * MAX_RESULTS e"
    using length_concat_full [of "[1..<k]" "page_items e search_tags uploaded_after" "MAX_RESULTS e"]
    by simp
  then have l: "length (concat (map (page_items e search_tags uploaded_after) [1..<Suc k])) =
      (k - 1) * MAX_RESULTS e + length (page_items e search_tags uploaded_after k)"
    using assms(1) by simp
  have pr: "page_request e search_tags uploaded_after =
      (\<lambda>p. Request (PostIndex search_tags uploaded_after p (MAX_RESULTS e)))"
    by (rule ext) (simp add: page_request_def)
  show ?thesis using r l unfolding pr by blast
qed

text \<open>Pages of 50, 50 and 37 posts with a page size of 50: 137 posts after three requests.\<close>

theorem accumulate_pages_witness:
  "\<exists>items. accumulate pages_env ''a'' ''2020-01-01'' 1 [] [] =
      Some (Inr items,
            [Request (PostIndex ''a'' ''2020-01-01'' 1 50),
             Request (PostIndex ''a'' ''2020-01-01'' 2 50),
             Request (PostIndex ''a'' ''2020-01-01'' 3 50)])
    \<and> length items = 137"
proof -
  have m: "MAX_RESULTS pages_env = 50"
    by (simp add: pages_env_def alias_env_def)
  have k: "(1::nat) \<le> 3" by simp
  have full: "\<forall>p\<in>{1..<3}. \<exists>qs. posts_index pages_env ''a'' ''2020-01-01'' p (MAX_RESULTS pages_env) = Inr qs
            \<and> length qs = MAX_RESULTS pages_env"
    by (auto simp: pages_env_def alias_env_def)
  have short: "\<exists>qs. posts_index pages_env ''a'' ''2020-01-01'' 3 (MAX_RESULTS pages_env) = Inr qs
            \<and> length qs < MAX_RESULTS pages_env"
    by (simp add: pages_env_def alias_env_def)
  have u: "[1..<Suc 3] = [1, 2, 3]"
    by (simp add: upt_rec)
  have l: "length (page_items pages_env ''a'' ''2020-01-01'' 3) = 37"
    by (simp add: page_items_def pages_env_def alias_env_def)
  show ?thesis
    using accumulate_pages [OF k full short, of "[]"] unfolding u m l by simp
qed

section \<open>The update phase\<close>

lemma pushes_append: "pushes (xs @ ys) = pushes xs @ pushes ys"
  by (induction xs rule: pushes.induct) simp_all

lemma pushes_requests: "pushes (map Request rs) = []"
  by (induction rs) simp_all

lemma pushes_cache_pushes: "pushes (map CachePush ms) = ms"
  by (induction ms) simp_all

lemma update_event_requests: "list_all update_event (map Request rs)"
  by (induction rs) simp_all

lemma update_event_cache_pushes: "list_all update_event (map CachePush ms)"
  by (induction ms) simp_all

lemma pushes_fresh_append:
  "pushes_fresh c (xs @ ys) \<longleftrightarrow> pushes_fresh c xs \<and> pushes_fresh (fold cache_push xs c) ys"
  by (induction xs arbitrary: c) simp_all

lemma decide_Approved_fresh:
  "decide e CONFIG bl c line all_tags extra_tags item = Approved \<Longrightarrow> \<not> cache_member (md5 item) c"
  by (simp add: decide_def Let_def split: if_splits)

lemma process_item_effect:
  assumes "process_item e CONFIG bl line all_tags extra_tags item (g, n, tr) = (g', n', tr')"
  shows "\<exists>ms. tr' = tr @ map CachePush ms \<and> CACHE g' = fold cache_push ms (CACHE g) \<and>
     pushes_fresh (CACHE g) ms \<and>
     length (URL_AND_NAME_LIST g') = length (URL_AND_NAME_LIST g) + length ms \<and>
     will_download n' = will_download n + length ms \<and>
     will_download n' + links_missing_tags n' + links_blacklisted n' + links_on_disk n'
       + links_in_cache n' =
     will_download n + links_missing_tags n + links_blacklisted n + links_on_disk n
       + links_in_cache n + 1"
proof (cases "decide e CONFIG bl (CACHE g) line all_tags extra_tags item")
  case Approved
  then have f: "\<not> cache_member (md5 item) (CACHE g)" by (rule decide_Approved_fresh)
  have "tr' = tr @ map CachePush [md5 item] \<and> CACHE g' = fold cache_push [md5 item] (CACHE g) \<and>
     pushes_fresh (CACHE g) [md5 item] \<and>
     length (URL_AND_NAME_LIST g') = length (URL_AND_NAME_LIST g) + length [md5 item] \<and>
     will_download n' = will_download n + length [md5 item] \<and>
     will_download n' + links_missing_tags n' + links_blacklisted n' + links_on_disk n'
       + links_in_cache n' =
     will_download n + links_missing_tags n + links_blacklisted n + links_on_disk n
       + links_in_cache n + 1"
    using assms Approved f by (auto simp: process_item_def)
  then show ?thesis by blast
qed (use assms in \<open>auto simp: process_item_def intro!: exI [of _ "[]"]\<close>)

lemma process_items_effect:
  assumes "process_items e CONFIG bl line all_tags extra_tags items (g, n, tr) = (g', n', tr')"
  shows "\<exists>ms. tr' = tr @ map CachePush ms \<and> CACHE g' = fold cache_push ms (CACHE g) \<and>
     pushes_fresh (CACHE g) ms \<and>
     length (URL_AND_NAME_LIST g') = length (URL_AND_NAME_LIST g) + length ms \<and>
     will_download n' = will_download n + length ms \<and>
     will_download n' + links_missing_tags n' + links_blacklisted n' + links_on_disk n'
       + links_in_cache n' =
     will_download n + links_missing_tags n + links_blacklisted n + links_on_disk n
       + links_in_cache n + length items"
  using assms
proof (induction items arbitrary: g n tr)
  case Nil
  then show ?case by (auto intro!: exI [of _ "[]"])
next
  case (Cons item items)
  obtain g1 n1 tr1 where
    s: "process_item e CONFIG bl line all_tags extra_tags item (g, n, tr) = (g1, n1, tr1)"
    by (cases "process_item e CONFIG bl line all_tags extra_tags item (g, n, tr)")
  from process_item_effect [OF s] obtain ms1 where
    a: "tr1 = tr @ map CachePush ms1" "CACHE g1 = fold cache_push ms1 (CACHE g)"
      "pushes_fresh (CACHE g) ms1"
      "length (URL_AND_NAME_LIST g1) = length (URL_AND_NAME_LIST g) + length ms1"
      "will_download n1 = will_download n + length ms1"
      "will_download n1 + links_missing_tags n1 + links_blacklisted n1 + links_on_disk n1
         + links_in_cache n1 =
       will_download n + links_missing_tags n + links_blacklisted n + links_on_disk n
         + links_in_cache n + 1"
    by blast
  have "process_items e CONFIG bl line all_tags extra_tags items (g1, n1, tr1) = (g', n', tr')"
    using Cons.prems s by simp
  from Cons.IH [OF this] obtain ms2 where
    b: "tr' = tr1 @ map CachePush ms2" "CACHE g' = fold cache_push ms2 (CACHE g1)"
      "pushes_fresh (CACHE g1) ms2"
      "length (URL_AND_NAME_LIST g') = length (URL_AND_NAME_LIST g1) + length ms2"
      "will_download n' = will_download n1 + length ms2"
      "will_download n' + links_missing_tags n' + links_blacklisted n' + links_on_disk n'
         + links_in_cache n' =
       will_download n1 + links_missing_tags n1 + links_blacklisted n1 + links_on_disk n1
         + links_in_cache n1 + length items"
    by blast
  have "tr' = tr @ map CachePush (ms1 @ ms2) \<and> CACHE g' = fold cache_push (ms1 @ ms2) (CACHE g) \<and>
     pushes_fresh (CACHE g) (ms1 @ ms2) \<and>
     length (URL_AND_NAME_LIST g') = length (URL_AND_NAME_LIST g) + length (ms1 @ ms2) \<and>
     will_download n' = will_download n + length (ms1 @ ms2) \<and>
     will_download n' + links_missing_tags n' + links_blacklisted n' + links_on_disk n'
       + links_in_cache n' =
     will_download n + links_missing_tags n + links_blacklisted n + links_on_disk n
       + links_in_cache n + length (item # items)"
    using a b by (simp add: pushes_fresh_append)
  then show ?case by blast
qed

lemma alias_extra_tags_trace:
  "\<exists>rs. snd (alias_extra_tags e st ts acc tr) = tr @ map Request rs"
proof (induction ts arbitrary: acc tr)
  case Nil
  show ?case by (simp add: exI [of _ "[]"])
next
  case (Cons t ts)
  show ?case
  proof (cases "t \<in> set (str_split st)")
    case True
    then show ?thesis using Cons.IH [of acc tr] by simp
  next
    case False
    obtain r tr1 where g: "get_alias e t tr = (r, tr1)" by (cases "get_alias e t tr")
    obtain rs1 where r1: "tr1 = tr @ map Request rs1"
      using get_alias_trace [of e t tr] g by auto
    show ?thesis
    proof (cases r)
      case (Inl err)
      then show ?thesis using False g r1 by auto
    next
      case (Inr a)
      obtain rs2 where "snd (alias_extra_tags e st ts (acc @ [a]) tr1) = tr1 @ map Request rs2"
        using Cons.IH [of "acc @ [a]" tr1] by blast
      then have "snd (alias_extra_tags e st (t # ts) acc tr) = tr @ map Request (rs1 @ rs2)"
        using False g Inr r1 by simp
      then show ?thesis by blast
    qed
  qed
qed

lemma alias_blacklist_trace:
  "\<exists>rs. snd (alias_blacklist e ts acc tr) = tr @ map Request rs"
proof (induction ts arbitrary: acc tr)
  case Nil
  show ?case by (simp add: exI [of _ "[]"])
next
  case (Cons t ts)
  obtain r tr1 where g: "get_alias e t tr = (r, tr1)" by (cases "get_alias e t tr")
  obtain rs1 where r1: "tr1 = tr @ map Request rs1"
    using get_alias_trace [of e t tr] g by auto
  show ?case
  proof (cases r)
    case (Inl err)
    then show ?thesis using g r1 by auto
  next
    case (Inr a)
    obtain rs2 where "snd (alias_blacklist e ts (acc @ [a]) tr1) = tr1 @ map Request rs2"
      using Cons.IH [of "acc @ [a]" tr1] by blast
    then have "snd (alias_blacklist e (t # ts) acc tr) = tr @ map Request (rs1 @ rs2)"
      using g Inr r1 by simp
    then show ?thesis by blast
  qed
qed

lemma expand_trace:
  "\<exists>rs. snd (expand e line tr) = tr @ map Request rs"
proof (cases "5 < length (str_split line)")
  case False
  then show ?thesis by (simp add: expand_def exI [of _ "[]"])
next
  case True
  let ?st = "format5 (str_split line ! 0) (str_split line ! 1) (str_split line ! 2)
           (str_split line ! 3) (str_split line ! 4)"
  obtain rs where "snd (alias_extra_tags e ?st (str_split line) [] tr) = tr @ map Request rs"
    using alias_extra_tags_trace by blast
  then have "snd (expand e line tr) = tr @ map Request rs"
    using True by (auto simp: expand_def Let_def split: prod.splits sum.splits)
  then show ?thesis by blast
qed

lemma accumulate_trace:
  assumes "accumulate e s d cp acc tr = Some y"
  shows "\<exists>rs. snd y = tr @ map Request rs"
  using assms
proof (induction rule: accumulate.raw_induct [rotated 1, consumes 1])
  case (1 accumulate e s d cp acc tr y)
  let ?rq = "PostIndex s d cp (MAX_RESULTS e)"
  have one: "\<exists>rs. snd y = tr @ map Request rs" if "snd y = tr @ [Request ?rq]"
  proof -
    have "snd y = tr @ map Request [?rq]" using that by simp
    then show ?thesis by (rule exI)
  qed
  show ?case
  proof (cases "posts_index e s d cp (MAX_RESULTS e)")
    case (Inl err)
    then have "y = (Inl err, tr @ [Request ?rq])"
      using 1(2) by (simp add: get_posts_def)
    then show ?thesis using one by simp
  next
    case (Inr links_found)
    show ?thesis
    proof (cases "links_found \<noteq> [] \<and> length links_found = MAX_RESULTS e")
      case False
      then have "snd y = tr @ [Request ?rq]"
        using 1(2) Inr by (auto simp: get_posts_def split: if_splits)
      then show ?thesis by (rule one)
    next
      case True
      then have "accumulate e s d (cp + 1) (acc @ links_found) (tr @ [Request ?rq]) = Some y"
        using 1(2) Inr by (simp add: get_posts_def)
      from 1(1) [OF this] obtain rs where
        "snd y = (tr @ [Request ?rq]) @ map Request rs"
        by blast
      then have "snd y = tr @ map Request (?rq # rs)" by simp
      then show ?thesis by (rule exI)
    qed
  qed
qed

lemma update_line_effect:
  assumes "update_line e CONFIG bl line g tr = Some (r, tr')"
  shows "\<exists>es. tr' = tr @ es \<and> list_all update_event es \<and>
     (\<forall>g' n found. r = Inr (g', n, found) \<longrightarrow>
        CACHE g' = fold cache_push (pushes es) (CACHE g) \<and>
        pushes_fresh (CACHE g) (pushes es) \<and>
        length (URL_AND_NAME_LIST g') = length (URL_AND_NAME_LIST g) + length (pushes es) \<and>
        will_download n = length (pushes es) \<and>
        will_download n + links_missing_tags n + links_blacklisted n + links_on_disk n
          + links_in_cache n = length found)"
proof -
  obtain x tr1 where ex: "expand e line tr = (x, tr1)" by (cases "expand e line tr")
  obtain rs1 where t1: "tr1 = tr @ map Request rs1"
    using expand_trace [of e line tr] ex by auto
  show ?thesis
  proof (cases x)
    case (Inl err)
    then have "tr' = tr @ map Request rs1" "r = Inl err"
      using assms ex t1 by (auto simp: update_line_def)
    then show ?thesis
      using update_event_requests by blast
  next
    case (Inr grp)
    obtain all_tags search_tags extra_tags where grp: "grp = (all_tags, search_tags, extra_tags)"
      by (cases grp)
    obtain y where acc: "accumulate e search_tags (last_run CONFIG) 1 [] tr1 = Some y"
      using assms ex Inr grp by (auto simp: update_line_def split: option.splits)
    obtain z tr2 where y: "y = (z, tr2)" by (cases y)
    obtain rs2 where t2: "tr2 = tr1 @ map Request rs2"
      using accumulate_trace [OF acc] y by auto
    have t12: "tr2 = tr @ map Request (rs1 @ rs2)" using t1 t2 by simp
    show ?thesis
    proof (cases z)
      case (Inl err)
      then have "tr' = tr @ map Request (rs1 @ rs2)" "r = Inl err"
        using assms ex Inr grp acc y t12 by (auto simp: update_line_def)
      then show ?thesis
        using update_event_requests by blast
    next
      case found: (Inr potential_downloads)
      show ?thesis
      proof (cases "potential_downloads = []")
        case True
        then have "tr' = tr @ map Request (rs1 @ rs2)" "r = Inr (g, zero_counters, [])"
          using assms ex Inr grp acc y t12 found by (auto simp: update_line_def)
        then show ?thesis
          using update_event_requests [of "rs1 @ rs2"]
          by (auto simp: pushes_requests zero_counters_def simp del: map_append)
      next
        case False
        obtain g1 n1 tr3 where
          p: "process_items e CONFIG bl line all_tags extra_tags potential_downloads
                (g, zero_counters, tr2) = (g1, n1, tr3)"
          by (cases "process_items e CONFIG bl line all_tags extra_tags potential_downloads
                (g, zero_counters, tr2)")
        have res: "tr' = tr3" "r = Inr (g1, n1, potential_downloads)"
          using assms ex Inr grp acc y found False p by (auto simp: update_line_def)
        from process_items_effect [OF p] obtain ms where
          b: "tr3 = tr2 @ map CachePush ms" "CACHE g1 = fold cache_push ms (CACHE g)"
            "pushes_fresh (CACHE g) ms"
            "length (URL_AND_NAME_LIST g1) = length (URL_AND_NAME_LIST g) + length ms"
            "will_download n1 = will_download zero_counters + length ms"
            "will_download n1 + links_missing_tags n1 + links_blacklisted n1 + links_on_disk n1
               + links_in_cache n1 =
             will_download zero_counters + links_missing_tags zero_counters
               + links_blacklisted zero_counters + links_on_disk zero_counters
               + links_in_cache zero_counters + length potential_downloads"
          by blast
        let ?es = "map Request (rs1 @ rs2) @ map CachePush ms"
        have "tr' = tr @ ?es" using res b(1) t12 by simp
        moreover have "list_all update_event ?es"
          using update_event_requests [of "rs1 @ rs2"] update_event_cache_pushes [of ms]
          by (simp del: map_append)
        moreover have "pushes ?es = ms"
          by (simp add: pushes_append pushes_requests pushes_cache_pushes del: map_append)
        ultimately show ?thesis
          using res(2) b(2-6) by (auto simp: zero_counters_def)
      qed
    qed
  qed
qed

lemma update_effect:
  assumes "update e CONFIG bl lines g tr = Some (r, tr')"
  shows "\<exists>es. tr' = tr @ es \<and> list_all update_event es \<and>
     (\<forall>g'. r = Inr g' \<longrightarrow>
        CACHE g' = fold cache_push (pushes es) (CACHE g) \<and>
        pushes_fresh (CACHE g) (pushes es) \<and>
        length (URL_AND_NAME_LIST g') = length (URL_AND_NAME_LIST g) + length (pushes es))"
  using assms
proof (induction lines arbitrary: g tr)
  case Nil
  then show ?case by (auto intro!: exI [of _ "[]"])
next
  case (Cons line lines)
  obtain x tr1 where u: "update_line e CONFIG bl line g tr = Some (x, tr1)"
    using Cons.prems by (cases "update_line e CONFIG bl line g tr") auto
  from update_line_effect [OF u] obtain es1 where
    a: "tr1 = tr @ es1" "list_all update_event es1"
    and a': "\<forall>g' n found. x = Inr (g', n, found) \<longrightarrow>
        CACHE g' = fold cache_push (pushes es1) (CACHE g) \<and>
        pushes_fresh (CACHE g) (pushes es1) \<and>
        length (URL_AND_NAME_LIST g') = length (URL_AND_NAME_LIST g) + length (pushes es1)"
    by blast
  show ?case
  proof (cases x)
    case (Inl err)
    then have "tr' = tr @ es1" "r = Inl err" using Cons.prems u a by auto
    then show ?thesis using a(2) by blast
  next
    case (Inr res)
    obtain g1 n1 found where res: "res = (g1, n1, found)" by (cases res)
    have rest: "update e CONFIG bl lines g1 tr1 = Some (r, tr')"
      using Cons.prems u Inr res by simp
    from Cons.IH [OF rest] obtain es2 where
      b: "tr' = tr1 @ es2" "list_all update_event es2"
      and b': "\<forall>g'. r = Inr g' \<longrightarrow>
        CACHE g' = fold cache_push (pushes es2) (CACHE g1) \<and>
        pushes_fresh (CACHE g1) (pushes es2) \<and>
        length (URL_AND_NAME_LIST g') = length (URL_AND_NAME_LIST g1) + length (pushes es2)"
      by blast
    have c: "CACHE g1 = fold cache_push (pushes es1) (CACHE g)"
        "pushes_fresh (CACHE g) (pushes es1)"
        "length (URL_AND_NAME_LIST g1) = length (URL_AND_NAME_LIST g) + length (pushes es1)"
      using a' Inr res by auto
    have "tr' = tr @ (es1 @ es2)" using a(1) b(1) by simp
    moreover have "list_all update_event (es1 @ es2)" using a(2) b(2) by simp
    moreover have "\<forall>g'. r = Inr g' \<longrightarrow>
        CACHE g' = fold cache_push (pushes (es1 @ es2)) (CACHE g) \<and>
        pushes_fresh (CACHE g) (pushes (es1 @ es2)) \<and>
        length (URL_AND_NAME_LIST g') = length (URL_AND_NAME_LIST g) + length (pushes (es1 @ es2))"
      using b' c by (simp add: pushes_append pushes_fresh_append)
    ultimately show ?thesis by blast
  qed
qed

section \<open>Counters, download and wrap-up\<close>

text \<open>
  C10. After the pass over one line of the tag file, the five counters of the line add up
  to the number of its accumulated candidates, and the global download list has grown by
  exactly \<open>will_download\<close> pairs. (Every candidate gets one disposition, since the
  disposition is a function of the item and the state; a line without candidates leaves
  all counters at zero.)
\<close>

theorem counters_partition:
  assumes "update_line e CONFIG bl line g tr = Some (Inr (g', n, found), tr')"
  shows "will_download n + links_missing_tags n + links_blacklisted n + links_on_disk n
           + links_in_cache n = length found
         \<and> length (URL_AND_NAME_LIST g') = length (URL_AND_NAME_LIST g) + will_download n"
  using update_line_effect [OF assms] by auto

text \<open>
  A line with two candidates, both approved.
\<close>

theorem counters_partition_witness:
  "update_line two_posts_env example_config [] ''a''
       \<lparr>URL_AND_NAME_LIST = [], CACHE = example_cache\<rparr> [] =
     Some (Inr (\<lparr>URL_AND_NAME_LIST =
                   [(''http://m1'', ''downloads/m1.jpg''), (''http://m2'', ''downloads/m2.jpg'')],
                 CACHE = \<lparr>capacity = 1, entries = [''m2'']\<rparr>\<rparr>,
                \<lparr>links_missing_tags = 0, links_blacklisted = 0, links_in_cache = 0,
                   links_on_disk = 0, will_download = 2\<rparr>,
                [example_post ''m1'' ''a'', example_post ''m2'' ''a'']),
           [Request (PostIndex ''a'' ''2020-01-01'' 1 50), CachePush ''m1'', CachePush ''m2''])
   \<and> (2::nat) + 0 + 0 + 0 + 0 = length [example_post ''m1'' ''a'', example_post ''m2'' ''a'']"
proof -
  have x: "update_line two_posts_env example_config [] ''a''
       \<lparr>URL_AND_NAME_LIST = [], CACHE = example_cache\<rparr> [] =
     Some (Inr (\<lparr>URL_AND_NAME_LIST =
                   [(''http://m1'', ''downloads/m1.jpg''), (''http://m2'', ''downloads/m2.jpg'')],
                 CACHE = \<lparr>capacity = 1, entries = [''m2'']\<rparr>\<rparr>,
                \<lparr>links_missing_tags = 0, links_blacklisted = 0, links_in_cache = 0,
                   links_on_disk = 0, will_download = 2\<rparr>,
                [example_post ''m1'' ''a'', example_post ''m2'' ''a'']),
           [Request (PostIndex ''a'' ''2020-01-01'' 1 50), CachePush ''m1'', CachePush ''m2''])"
    by code_simp
  show ?thesis using counters_partition [OF x] x by simp
qed

text \<open>
  What the download and the wrap-up add to the trace, and what they return.
\<close>

lemma download_and_wrap_up_effect:
  assumes "download_and_wrap_up e CONFIG g tr = (r, t)"
  shows "\<exists>rest. t = tr @ rest \<and> pushes rest = [] \<and>
     (\<forall>tasks k. MultiDownload tasks k \<in> set rest \<longrightarrow> tasks = URL_AND_NAME_LIST g) \<and>
     (\<forall>CONFIG' c'. r = Inr (CONFIG', c') \<longrightarrow>
        c' = CACHE g \<and> CONFIG' = CONFIG\<lparr>last_run := strftime e (today e - 1)\<rparr> \<and>
        (\<exists>t0. t = t0 @ [ConfigWrite CONFIG']))"
proof -
  obtain r1 tr2 where d: "(if URL_AND_NAME_LIST g \<noteq> []
            then multi_download e (URL_AND_NAME_LIST g) (parallel_downloads CONFIG) tr
            else (Inr (), tr)) = (r1, tr2)"
    by (cases "if URL_AND_NAME_LIST g \<noteq> []
            then multi_download e (URL_AND_NAME_LIST g) (parallel_downloads CONFIG) tr
            else (Inr (), tr)")
  have "\<exists>rest1. tr2 = tr @ rest1 \<and> pushes rest1 = [] \<and>
    (\<forall>tasks k. MultiDownload tasks k \<in> set rest1 \<longrightarrow> tasks = URL_AND_NAME_LIST g)"
  proof (cases "URL_AND_NAME_LIST g = []")
    case True
    then have "tr2 = tr @ []" using d by simp
    then show ?thesis by force
  next
    case False
    then have "tr2 = tr @ [MultiDownload (URL_AND_NAME_LIST g) (parallel_downloads CONFIG)]"
      using d by (auto simp: multi_download_def split: sum.splits)
    moreover have "pushes [MultiDownload (URL_AND_NAME_LIST g) (parallel_downloads CONFIG)] = []"
      by simp
    moreover have "\<forall>tasks k. MultiDownload tasks k \<in>
        set [MultiDownload (URL_AND_NAME_LIST g) (parallel_downloads CONFIG)]
        \<longrightarrow> tasks = URL_AND_NAME_LIST g"
      by simp
    ultimately show ?thesis by blast
  qed
  then obtain rest1 where r1: "tr2 = tr @ rest1" "pushes rest1 = []"
    "\<forall>tasks k. MultiDownload tasks k \<in> set rest1 \<longrightarrow> tasks = URL_AND_NAME_LIST g"
    by blast
  show ?thesis
  proof (cases r1)
    case (Inl err)
    then have e1: "t = tr @ rest1" and e2: "r = Inl err"
      using assms d r1(1) by (simp_all add: download_and_wrap_up_def)
    show ?thesis
      by (rule exI [of _ rest1]) (simp add: e1 e2 r1(2) r1(3))
  next
    case (Inr u)
    obtain r2 tr3 where w: "wrap_up e CONFIG tr2 = (r2, tr3)"
      by (cases "wrap_up e CONFIG tr2")
    show ?thesis
    proof (cases r2)
      case (Inl err)
      have "tr3 = tr2"
      proof (cases "fromordinal (today e - 1)")
        case a: (Inl x)
        then show ?thesis using w by (simp add: wrap_up_def)
      next
        case b: (Inr y)
        then show ?thesis using w Inl
          by (cases "config_writable e") (simp_all add: wrap_up_def Let_def)
      qed
      then have e1: "t = tr @ rest1" and e2: "r = Inl err"
        using assms d Inr w Inl r1(1) by (simp_all add: download_and_wrap_up_def)
      show ?thesis
        by (rule exI [of _ rest1]) (simp add: e1 e2 r1(2) r1(3))
    next
      case cfg: (Inr CONFIG')
      have c: "CONFIG' = CONFIG\<lparr>last_run := strftime e (today e - 1)\<rparr> \<and>
        tr3 = tr2 @ [ConfigWrite CONFIG']"
      proof (cases "fromordinal (today e - 1)")
        case a: (Inl x)
        then show ?thesis using w cfg by (simp add: wrap_up_def)
      next
        case b: (Inr y)
        then have y: "y = today e - 1"
          by (simp add: fromordinal_def split: if_splits)
        show ?thesis using w cfg b y
          by (cases "config_writable e") (auto simp: wrap_up_def Let_def)
      qed
      have e1: "t = tr @ (rest1 @ [ConfigWrite CONFIG'])" and e2: "r = Inr (CONFIG', CACHE g)"
        using assms d Inr w cfg c r1(1) by (simp_all add: download_and_wrap_up_def)
      have p: "pushes (rest1 @ [ConfigWrite CONFIG']) = []"
        using r1(2) by (simp add: pushes_append)
      have m: "\<forall>tasks k. MultiDownload tasks k \<in> set (rest1 @ [ConfigWrite CONFIG'])
          \<longrightarrow> tasks = URL_AND_NAME_LIST g"
        using r1(3) by simp
      have l: "\<exists>t0. t = t0 @ [ConfigWrite CONFIG']"
        by (rule exI [of _ "tr @ rest1"]) (simp add: e1)
      show ?thesis
        apply (rule exI [of _ "rest1 @ [ConfigWrite CONFIG']"])
        apply (intro conjI)
           apply (rule e1)
          apply (rule p)
         apply (rule m)
        using e2 c l apply blast
        done
    qed
  qed
qed

text \<open>
  C6. A run that reaches the end of the wrap-up on the day with ordinal \<open>today\<close> has
  written a configuration whose \<open>last_run\<close> is the formatted date of the day before,
  whatever the tag lines, the blacklist, the cache, the items found and the outcome the
  downloader reports for each task; the write of that configuration is the last event of
  the run.
\<close>

theorem watermark_advance:
  assumes "run e CONFIG TAGS BLACKLIST c = Some (Inr (CONFIG', c'), tr)"
  shows "last_run CONFIG' = strftime e (today e - 1)
     \<and> CONFIG' = CONFIG\<lparr>last_run := strftime e (today e - 1)\<rparr>
     \<and> (\<exists>tr0. tr = tr0 @ [ConfigWrite CONFIG'])"
proof -
  obtain g tr1 where "download_and_wrap_up e CONFIG g tr1 = (Inr (CONFIG', c'), tr)"
    using assms by (auto simp: run_def split: prod.splits sum.splits option.splits)
  from download_and_wrap_up_effect [OF this]
  have "CONFIG' = CONFIG\<lparr>last_run := strftime e (today e - 1)\<rparr>
      \<and> (\<exists>t0. tr = t0 @ [ConfigWrite CONFIG'])"
    by blast
  then show ?thesis by auto
qed

text \<open>
  A run on 2021-07-29 in which the first of two downloads fails.
\<close>

theorem watermark_advance_witness:
  "run two_posts_env example_config [''a''] [] example_cache =
     Some (Inr (example_config\<lparr>last_run := ''2021-07-28''\<rparr>,
                \<lparr>capacity = 1, entries = [''m2'']\<rparr>),
           [Request (PostIndex ''a'' ''2020-01-01'' 1 50), CachePush ''m1'', CachePush ''m2'',
            MultiDownload
              [(''http://m1'', ''downloads/m1.jpg''), (''http://m2'', ''downloads/m2.jpg'')] 2,
            ConfigWrite (example_config\<lparr>last_run := ''2021-07-28''\<rparr>)])
   \<and> downloader two_posts_env
        [(''http://m1'', ''downloads/m1.jpg''), (''http://m2'', ''downloads/m2.jpg'')] 2
       = Inr [False, True]
   \<and> today two_posts_env = 738000
   \<and> last_run (example_config\<lparr>last_run := ''2021-07-28''\<rparr>) = strftime two_posts_env (738000 - 1)"
proof -
  have x: "run two_posts_env example_config [''a''] [] example_cache =
     Some (Inr (example_config\<lparr>last_run := ''2021-07-28''\<rparr>,
                \<lparr>capacity = 1, entries = [''m2'']\<rparr>),
           [Request (PostIndex ''a'' ''2020-01-01'' 1 50), CachePush ''m1'', CachePush ''m2'',
            MultiDownload
              [(''http://m1'', ''downloads/m1.jpg''), (''http://m2'', ''downloads/m2.jpg'')] 2,
            ConfigWrite (example_config\<lparr>last_run := ''2021-07-28''\<rparr>)])"
    by code_simp
  have d: "downloader two_posts_env
        [(''http://m1'', ''downloads/m1.jpg''), (''http://m2'', ''downloads/m2.jpg'')] 2
       = Inr [False, True]"
    by code_simp
  have t: "today two_posts_env = 738000"
    by code_simp
  have "last_run (example_config\<lparr>last_run := ''2021-07-28''\<rparr>)
      = strftime two_posts_env (today two_posts_env - 1)"
    using watermark_advance [OF x] by blast
  then show ?thesis using x d t by simp
qed

section \<open>Transport failures\<close>

lemma update_append:
  "update e CONFIG bl (xs @ ys) g tr =
     (case update e CONFIG bl xs g tr of
        None \<Rightarrow> None
      | Some (Inl err, t) \<Rightarrow> Some (Inl err, t)
      | Some (Inr g', t) \<Rightarrow> update e CONFIG bl ys g' t)"
proof (induction xs arbitrary: g tr)
  case Nil
  show ?case by simp
next
  case (Cons x xs)
  show ?case
  proof (cases "update_line e CONFIG bl x g tr")
    case None
    then show ?thesis by simp
  next
    case (Some y)
    obtain r t where y: "y = (r, t)" by (cases y)
    show ?thesis
    proof (cases r)
      case (Inl err)
      then show ?thesis using Some y by simp
    next
      case (Inr res)
      obtain g1 n1 found where "res = (g1, n1, found)" by (cases res)
      then show ?thesis using Some y Inr Cons.IH [of g1 t] by simp
    qed
  qed
qed

lemma accumulate_fails:
  assumes "0 < MAX_RESULTS e" and "1 \<le> k"
    and "\<forall>p\<in>{1..<k}. \<exists>qs. posts_index e s d p (MAX_RESULTS e) = Inr qs
            \<and> length qs = MAX_RESULTS e"
    and "posts_index e s d k (MAX_RESULTS e) = Inl err"
  shows "accumulate e s d 1 [] tr = Some (Inl err, tr @ map (page_request e s d) [1..<Suc k])"
proof -
  have full: "\<forall>p. 1 \<le> p \<and> p < k \<longrightarrow>
           (\<exists>qs. posts_index e s d p (MAX_RESULTS e) = Inr qs \<and> length qs = MAX_RESULTS e)"
    using assms(3) by simp
  have "accumulate e s d 1 [] tr =
        accumulate e s d k ([] @ concat (map (page_items e s d) [1..<k]))
          (tr @ map (page_request e s d) [1..<k])"
    using assms(1) full assms(2) by (rule accumulate_full_pages)
  also have "\<dots> = Some (Inl err, (tr @ map (page_request e s d) [1..<k]) @ [page_request e s d k])"
    using assms(4) by (rule accumulate_failed_page)
  finally show ?thesis using assms(2) by simp
qed

text \<open>
  C8, as amended. A failed page request is an exception, distinct from an empty page (which
  is a result). No handler catches it: when the request for page \<open>k\<close> of a group fails
  after \<open>k - 1\<close> full pages, the accumulation of the group has no result (the pages
  fetched so far are lost with it), and the whole run ends with that error right after the
  failed request, the later groups are not visited, and nothing but requests and cache
  pushes has happened: no download was started and the configuration was not written.
\<close>

theorem transport_failure_ends_run:
  assumes "0 < MAX_RESULTS e"
    and "alias_blacklist e BLACKLIST [] [] = (Inr bl, tr0)"
    and "update e CONFIG bl before \<lparr>URL_AND_NAME_LIST = [], CACHE = c\<rparr> tr0 = Some (Inr g, tr1)"
    and "expand e line tr1 = (Inr (all_tags, search_tags, extra_tags), tr2)"
    and "1 \<le> k"
    and "\<forall>p\<in>{1..<k}. \<exists>qs. posts_index e search_tags (last_run CONFIG) p (MAX_RESULTS e) = Inr qs
            \<and> length qs = MAX_RESULTS e"
    and "posts_index e search_tags (last_run CONFIG) k (MAX_RESULTS e) = Inl err"
  shows "accumulate e search_tags (last_run CONFIG) 1 [] tr2 =
           Some (Inl err, tr2 @ map (page_request e search_tags (last_run CONFIG)) [1..<Suc k])
     \<and> run e CONFIG (before @ line # rest) BLACKLIST c =
           Some (Inl err, tr2 @ map (page_request e search_tags (last_run CONFIG)) [1..<Suc k])
     \<and> list_all update_event
           (tr2 @ map (page_request e search_tags (last_run CONFIG)) [1..<Suc k])"
proof -
  let ?t = "tr2 @ map (page_request e search_tags (last_run CONFIG)) [1..<Suc k]"
  have a: "accumulate e search_tags (last_run CONFIG) 1 [] tr2 = Some (Inl err, ?t)"
    using assms(1,5,6,7) by (rule accumulate_fails)
  have ul: "update_line e CONFIG bl line g tr1 = Some (Inl err, ?t)"
    using assms(4) a by (simp add: update_line_def)
  have u: "update e CONFIG bl (before @ line # rest) \<lparr>URL_AND_NAME_LIST = [], CACHE = c\<rparr> tr0
      = Some (Inl err, ?t)"
    using assms(3) ul by (simp add: update_append)
  have r: "run e CONFIG (before @ line # rest) BLACKLIST c = Some (Inl err, ?t)"
    using assms(2) u by (simp add: run_def)
  obtain rs0 where t0: "tr0 = map Request rs0"
    using alias_blacklist_trace [of e BLACKLIST "[]" "[]"] assms(2) by auto
  obtain es where t1: "tr1 = tr0 @ es" and es: "list_all update_event es"
    using update_effect [OF assms(3)] by blast
  obtain rs2 where t2: "tr2 = tr1 @ map Request rs2"
    using expand_trace [of e line tr1] assms(4) by auto
  have pr: "map (page_request e search_tags (last_run CONFIG)) [1..<Suc k] =
      map Request (map (\<lambda>p. PostIndex search_tags (last_run CONFIG) p (MAX_RESULTS e)) [1..<Suc k])"
    by (simp add: page_request_def)
  have "list_all update_event ?t"
    unfolding t2 t1 t0 pr
    using es update_event_requests [of rs0] update_event_requests [of rs2]
      update_event_requests [of "map (\<lambda>p. PostIndex search_tags (last_run CONFIG) p (MAX_RESULTS e)) [1..<Suc k]"]
    by simp
  then show ?thesis using a r by blast
qed

text \<open>
  C8 as stated fails: the first page of the search for \<open>a\<close> is full and the second
  request fails. The accumulation returns the error and not the two candidates of page 1,
  and the run ends with it: the group \<open>b\<close> is never searched, nothing is downloaded and
  the watermark is not advanced.
\<close>

theorem transport_failure_counterexample:
  "posts_index failing_env ''a'' ''2020-01-01'' 1 2 =
      Inr [example_post ''m1'' ''a'', example_post ''m2'' ''a''] \<and>
   posts_index failing_env ''a'' ''2020-01-01'' 2 2 = Inl IOError \<and>
   accumulate failing_env ''a'' ''2020-01-01'' 1 [] [] =
      Some (Inl IOError, [Request (PostIndex ''a'' ''2020-01-01'' 1 2),
                          Request (PostIndex ''a'' ''2020-01-01'' 2 2)]) \<and>
   run failing_env example_config [''a'', ''b''] [] example_cache =
      Some (Inl IOError, [Request (PostIndex ''a'' ''2020-01-01'' 1 2),
                          Request (PostIndex ''a'' ''2020-01-01'' 2 2)])"
  by code_simp

text \<open>
  The amended statement at the same input.
\<close>

theorem transport_failure_ends_run_witness:
  "run failing_env example_config ([] @ ''a'' # [''b'']) [] example_cache =
      Some (Inl IOError, [Request (PostIndex ''a'' ''2020-01-01'' 1 2),
                          Request (PostIndex ''a'' ''2020-01-01'' 2 2)])"
proof -
  have m: "0 < MAX_RESULTS failing_env" by code_simp
  have b: "alias_blacklist failing_env [] [] [] = (Inr [], [])" by simp
  have u: "update failing_env example_config [] [] \<lparr>URL_AND_NAME_LIST = [], CACHE = example_cache\<rparr> []
      = Some (Inr \<lparr>URL_AND_NAME_LIST = [], CACHE = example_cache\<rparr>, [])"
    by simp
  have x: "expand failing_env ''a'' [] = (Inr ([''a''], ''a'', []), [])" by code_simp
  have k: "(1::nat) \<le> 2" by simp
  have l: "last_run example_config = ''2020-01-01''" by code_simp
  have mm: "MAX_RESULTS failing_env = 2" by code_simp
  have full: "\<forall>p\<in>{1..<2}. \<exists>qs. posts_index failing_env ''a'' (last_run example_config) p
        (MAX_RESULTS failing_env) = Inr qs \<and> length qs = MAX_RESULTS failing_env"
    by (auto simp: failing_env_def alias_env_def)
  have fail: "posts_index failing_env ''a'' (last_run example_config) 2
        (MAX_RESULTS failing_env) = Inl IOError"
    by (simp add: failing_env_def alias_env_def)
  have up: "[1..<Suc 2] = [1, 2]" by (simp add: upt_rec)
  show ?thesis
    using transport_failure_ends_run [OF m b u x k full fail, of "[''b'']"]
    unfolding up l mm page_request_def by simp
qed

section \<open>Approval, the cache and the download batch\<close>

lemma capacity_push: "capacity (cache_push x c) = capacity c"
  by (simp add: cache_push_def)

lemma capacity_fold: "capacity (fold cache_push ms c) = capacity c"
  by (induction ms arbitrary: c) (simp_all add: capacity_push)

lemma member_after_push: "cache_member x (cache_push x c)"
  by (simp add: cache_member_def cache_push_def)

lemma tl_drop_Suc: "tl (drop n xs) = drop (Suc n) xs"
  by (simp add: drop_Suc tl_drop)

text \<open>
  The entries of a cache after pushes of fingerprints that were absent when pushed: while
  its size is within its capacity, the cache keeps the newest entries.
\<close>

lemma fresh_entries_small:
  assumes "0 < capacity c" and "length (entries c) \<le> capacity c" and "pushes_fresh c ms"
  shows "entries (fold cache_push ms c) =
         drop (length (entries c) + length ms - capacity c) (entries c @ ms)"
  using assms(3)
proof (induction ms rule: rev_induct)
  case Nil
  then show ?case using assms(2) by simp
next
  case (snoc m ms)
  let ?c' = "fold cache_push ms c"
  let ?d = "length (entries c) + length ms - capacity c"
  have fr: "pushes_fresh c ms" and new: "\<not> cache_member m ?c'"
    using snoc.prems by (simp_all add: pushes_fresh_append)
  have ih: "entries ?c' = drop ?d (entries c @ ms)"
    using snoc.IH fr by simp
  have cap: "capacity ?c' = capacity c" by (rule capacity_fold)
  have len: "length (entries ?c') = length (entries c) + length ms - ?d"
    by (simp add: ih)
  show ?case
  proof (cases "capacity c \<le> length (entries c) + length ms")
    case True
    then have full: "length (entries ?c') = capacity ?c'"
      using len cap by simp
    have "entries (cache_push m ?c') = tl (entries ?c') @ [m]"
      using new full by (simp add: cache_push_def cache_member_def)
    also have "tl (entries ?c') = drop (Suc ?d) (entries c @ ms)"
      unfolding ih by (rule tl_drop_Suc)
    finally have "entries (cache_push m ?c') = drop (Suc ?d) (entries c @ ms) @ [m]" .
    moreover have "Suc ?d \<le> length (entries c @ ms)"
      using True assms(1) by simp
    moreover have "length (entries c) + length (ms @ [m]) - capacity c = Suc ?d"
      using True by simp
    ultimately show ?thesis by simp
  next
    case False
    then have notfull: "length (entries ?c') \<noteq> capacity ?c'"
      using len cap by simp
    have "entries (cache_push m ?c') = entries ?c' @ [m]"
      using new notfull by (simp add: cache_push_def cache_member_def)
    then show ?thesis using False ih by simp
  qed
qed

lemma fresh_entries_large:
  assumes "capacity c < length (entries c)" and "pushes_fresh c ms"
  shows "entries (fold cache_push ms c) = entries c @ ms"
  using assms(2)
proof (induction ms rule: rev_induct)
  case Nil
  then show ?case by simp
next
  case (snoc m ms)
  let ?c' = "fold cache_push ms c"
  have fr: "pushes_fresh c ms" and new: "\<not> cache_member m ?c'"
    using snoc.prems by (simp_all add: pushes_fresh_append)
  have ih: "entries ?c' = entries c @ ms" using snoc.IH fr by simp
  have "length (entries ?c') \<noteq> capacity ?c'"
    using ih assms(1) by (simp add: capacity_fold)
  then have "entries (cache_push m ?c') = entries ?c' @ [m]"
    using new by (simp add: cache_push_def cache_member_def)
  then show ?case using ih by simp
qed

lemma fresh_pushes_kept:
  assumes "pushes_fresh c ms" and "length ms \<le> capacity c"
  shows "\<forall>m\<in>set ms. cache_member m (fold cache_push ms c)"
proof (cases "capacity c < length (entries c)")
  case True
  then show ?thesis
    using fresh_entries_large [OF True assms(1)] by (simp add: cache_member_def)
next
  case False
  show ?thesis
  proof (cases "capacity c = 0")
    case True
    then show ?thesis using assms(2) by simp
  next
    case pos: False
    have "entries (fold cache_push ms c) =
         drop (length (entries c) + length ms - capacity c) (entries c @ ms)"
      using pos False assms(1) by (intro fresh_entries_small) simp_all
    moreover have "length (entries c) + length ms - capacity c \<le> length (entries c)"
      using assms(2) by simp
    ultimately have "entries (fold cache_push ms c) =
         drop (length (entries c) + length ms - capacity c) (entries c) @ ms"
      by simp
    then show ?thesis by (simp add: cache_member_def)
  qed
qed

lemma process_item_Approved:
  assumes "decide e CONFIG bl (CACHE g) line all_tags extra_tags item = Approved"
  shows "process_item e CONFIG bl line all_tags extra_tags item (g, n, tr) =
        (g\<lparr>URL_AND_NAME_LIST := URL_AND_NAME_LIST g @
             [(url item, download_directory CONFIG @ safe_filename e line item CONFIG)],
           CACHE := cache_push (md5 item) (CACHE g)\<rparr>,
         n\<lparr>will_download := will_download n + 1\<rparr>,
         tr @ [CachePush (md5 item)])"
  using assms by (simp add: process_item_def)

lemma run_effect:
  assumes "run e CONFIG TAGS BLACKLIST c = Some (r, t)"
  shows "\<exists>es rest. t = es @ rest \<and> list_all update_event es \<and> pushes rest = [] \<and>
     (\<forall>tasks k. MultiDownload tasks k \<in> set t \<longrightarrow> length tasks = length (pushes es)) \<and>
     (\<forall>CONFIG' c'. r = Inr (CONFIG', c') \<longrightarrow>
        c' = fold cache_push (pushes es) c \<and> pushes_fresh c (pushes es))"
proof -
  obtain r0 tr0 where ab: "alias_blacklist e BLACKLIST [] [] = (r0, tr0)"
    by (cases "alias_blacklist e BLACKLIST [] []")
  obtain rs0 where t0: "tr0 = map Request rs0"
    using alias_blacklist_trace [of e BLACKLIST "[]" "[]"] ab by auto
  have ev0: "list_all update_event tr0" unfolding t0 by (rule update_event_requests)
  have p0: "pushes tr0 = []" unfolding t0 by (rule pushes_requests)
  have nomd: "MultiDownload tasks k \<notin> set es" if "list_all update_event es" for tasks k es
    using that by (induction es) auto
  show ?thesis
  proof (cases r0)
    case (Inl err)
    then have e1: "t = tr0 @ []" and e2: "r = Inl err"
      using assms ab by (simp_all add: run_def)
    show ?thesis
      apply (rule exI [of _ tr0], rule exI [of _ "[]"])
      using e1 e2 ev0 p0 nomd [OF ev0] by simp
  next
    case (Inr bl)
    obtain r1 tr1 where up:
      "update e CONFIG bl TAGS \<lparr>URL_AND_NAME_LIST = [], CACHE = c\<rparr> tr0 = Some (r1, tr1)"
      using assms ab Inr by (auto simp: run_def split: option.splits)
    from update_effect [OF up] obtain es1 where
      u: "tr1 = tr0 @ es1" "list_all update_event es1"
      and u': "\<forall>g'. r1 = Inr g' \<longrightarrow>
        CACHE g' = fold cache_push (pushes es1) c \<and>
        pushes_fresh c (pushes es1) \<and>
        length (URL_AND_NAME_LIST g') = length (pushes es1)"
      by auto
    have ev1: "list_all update_event tr1" using u ev0 by simp
    have p1: "pushes tr1 = pushes es1" using u(1) p0 by (simp add: pushes_append)
    show ?thesis
    proof (cases r1)
      case (Inl err)
      then have e1: "t = tr1 @ []" and e2: "r = Inl err"
        using assms ab Inr up by (simp_all add: run_def)
      show ?thesis
        apply (rule exI [of _ tr1], rule exI [of _ "[]"])
        using e1 e2 ev1 nomd [OF ev1] by simp
    next
      case g: (Inr g)
      have fin: "download_and_wrap_up e CONFIG g tr1 = (r, t)"
        using assms ab Inr up g by (simp add: run_def)
      from download_and_wrap_up_effect [OF fin] obtain rest where
        d: "t = tr1 @ rest" "pushes rest = []"
          "\<forall>tasks k. MultiDownload tasks k \<in> set rest \<longrightarrow> tasks = URL_AND_NAME_LIST g"
          "\<forall>CONFIG' c'. r = Inr (CONFIG', c') \<longrightarrow> c' = CACHE g"
        by blast
      have gc: "CACHE g = fold cache_push (pushes tr1) c" "pushes_fresh c (pushes tr1)"
          "length (URL_AND_NAME_LIST g) = length (pushes tr1)"
        using u' g p1 by simp_all
      have md: "\<forall>tasks k. MultiDownload tasks k \<in> set t \<longrightarrow> length tasks = length (pushes tr1)"
        using d(1,3) nomd [OF ev1] gc(3) by auto
      show ?thesis
        apply (rule exI [of _ tr1], rule exI [of _ rest])
        using d(1,2,4) ev1 gc(1,2) md by simp
    qed
  qed
qed

text \<open>
  C5, as amended. For an approved item the step of the loop appends the pair of the item's
  url and its destination path to the download list and pushes the item's fingerprint to
  the cache in the same step, and the fingerprint is in the cache right after the push. In
  every run all pushes come before the call of the downloader, which gets as many tasks as
  fingerprints were pushed. The cache with which the run ends, which is the cache at the
  start of the batch, is the initial cache after those pushes; it holds every pushed
  fingerprint when the run approves at most \<open>capacity\<close> items (beyond that the oldest
  are evicted before the batch starts).
\<close>

theorem approval_pushes_before_download:
  "(decide e CONFIG bl (CACHE g) line all_tags extra_tags item = Approved \<longrightarrow>
      process_item e CONFIG bl line all_tags extra_tags item (g, n, tr) =
        (g\<lparr>URL_AND_NAME_LIST := URL_AND_NAME_LIST g @
             [(url item, download_directory CONFIG @ safe_filename e line item CONFIG)],
           CACHE := cache_push (md5 item) (CACHE g)\<rparr>,
         n\<lparr>will_download := will_download n + 1\<rparr>,
         tr @ [CachePush (md5 item)]) \<and>
      cache_member (md5 item) (cache_push (md5 item) (CACHE g))) \<and>
   (run e CONFIG TAGS BLACKLIST c = Some (r, t) \<longrightarrow>
      (\<exists>es rest. t = es @ rest \<and> list_all update_event es \<and> pushes rest = []) \<and>
      (\<forall>tasks k. MultiDownload tasks k \<in> set t \<longrightarrow> length tasks = length (pushes t)) \<and>
      (\<forall>CONFIG' c'. r = Inr (CONFIG', c') \<longrightarrow>
         c' = fold cache_push (pushes t) c \<and>
         (length (pushes t) \<le> capacity c \<longrightarrow> (\<forall>m\<in>set (pushes t). cache_member m c'))))"
proof (intro conjI impI)
  assume "decide e CONFIG bl (CACHE g) line all_tags extra_tags item = Approved"
  then show "process_item e CONFIG bl line all_tags extra_tags item (g, n, tr) =
        (g\<lparr>URL_AND_NAME_LIST := URL_AND_NAME_LIST g @
             [(url item, download_directory CONFIG @ safe_filename e line item CONFIG)],
           CACHE := cache_push (md5 item) (CACHE g)\<rparr>,
         n\<lparr>will_download := will_download n + 1\<rparr>,
         tr @ [CachePush (md5 item)])"
    by (rule process_item_Approved)
next
  show "cache_member (md5 item) (cache_push (md5 item) (CACHE g))"
    by (rule member_after_push)
next
  assume a: "run e CONFIG TAGS BLACKLIST c = Some (r, t)"
  from run_effect [OF a] obtain es rest where
    s: "t = es @ rest" "list_all update_event es" "pushes rest = []"
    and md: "\<forall>tasks k. MultiDownload tasks k \<in> set t \<longrightarrow> length tasks = length (pushes es)"
    and fin: "\<forall>CONFIG' c'. r = Inr (CONFIG', c') \<longrightarrow>
        c' = fold cache_push (pushes es) c \<and> pushes_fresh c (pushes es)"
    by blast
  have p: "pushes t = pushes es" using s(1,3) by (simp add: pushes_append)
  show "\<exists>es rest. t = es @ rest \<and> list_all update_event es \<and> pushes rest = []"
    using s by blast
  show "\<forall>tasks k. MultiDownload tasks k \<in> set t \<longrightarrow> length tasks = length (pushes t)"
    using md p by simp
  show "\<forall>CONFIG' c'. r = Inr (CONFIG', c') \<longrightarrow>
         c' = fold cache_push (pushes t) c \<and>
         (length (pushes t) \<le> capacity c \<longrightarrow> (\<forall>m\<in>set (pushes t). cache_member m c'))"
    using fin p fresh_pushes_kept [of c "pushes t"] by auto
qed

text \<open>
  C5 as stated fails: with a capacity of 1 and two approved items, the push of the second
  fingerprint evicts the first, and the batch that downloads both items starts with a
  cache that does not hold \<open>m1\<close>.
\<close>

theorem evicted_before_download_counterexample:
  "decide two_posts_env example_config [] example_cache ''a'' [''a''] []
     (example_post ''m1'' ''a'') = Approved \<and>
   run two_posts_env example_config [''a''] [] example_cache =
     Some (Inr (example_config\<lparr>last_run := ''2021-07-28''\<rparr>,
                \<lparr>capacity = 1, entries = [''m2'']\<rparr>),
           [Request (PostIndex ''a'' ''2020-01-01'' 1 50), CachePush ''m1'', CachePush ''m2'',
            MultiDownload
              [(''http://m1'', ''downloads/m1.jpg''), (''http://m2'', ''downloads/m2.jpg'')] 2,
            ConfigWrite (example_config\<lparr>last_run := ''2021-07-28''\<rparr>)]) \<and>
   cache_member ''m1'' \<lparr>capacity = 1, entries = [''m2'']\<rparr> = False"
  by code_simp

text \<open>
  The amended statement at a cache of capacity 2 and the same two items.
\<close>

theorem approval_pushes_before_download_witness:
  "decide two_posts_env example_config [] roomy_cache ''a'' [''a''] []
     (example_post ''m1'' ''a'') = Approved \<and>
   run two_posts_env example_config [''a''] [] roomy_cache =
     Some (Inr (example_config\<lparr>last_run := ''2021-07-28''\<rparr>,
                \<lparr>capacity = 2, entries = [''m1'', ''m2'']\<rparr>),
           [Request (PostIndex ''a'' ''2020-01-01'' 1 50), CachePush ''m1'', CachePush ''m2'',
            MultiDownload
              [(''http://m1'', ''downloads/m1.jpg''), (''http://m2'', ''downloads/m2.jpg'')] 2,
            ConfigWrite (example_config\<lparr>last_run := ''2021-07-28''\<rparr>)]) \<and>
   cache_member ''m1'' \<lparr>capacity = 2, entries = [''m1'', ''m2'']\<rparr> \<and>
   cache_member ''m2'' \<lparr>capacity = 2, entries = [''m1'', ''m2'']\<rparr>"
proof -
  let ?t = "[Request (PostIndex ''a'' ''2020-01-01'' 1 50), CachePush ''m1'', CachePush ''m2'',
            MultiDownload
              [(''http://m1'', ''downloads/m1.jpg''), (''http://m2'', ''downloads/m2.jpg'')] 2,
            ConfigWrite (example_config\<lparr>last_run := ''2021-07-28''\<rparr>)]"
  let ?c' = "\<lparr>capacity = 2, entries = [''m1'', ''m2'']\<rparr>"
  have d: "decide two_posts_env example_config [] roomy_cache ''a'' [''a''] []
     (example_post ''m1'' ''a'') = Approved"
    by code_simp
  have x: "run two_posts_env example_config [''a''] [] roomy_cache =
     Some (Inr (example_config\<lparr>last_run := ''2021-07-28''\<rparr>, ?c'), ?t)"
    by code_simp
  have p: "pushes ?t = [''m1'', ''m2'']" by simp
  have cap: "length (pushes ?t) \<le> capacity roomy_cache"
    unfolding p by (simp add: roomy_cache_def)
  have "\<forall>m\<in>set (pushes ?t). cache_member m ?c'"
    using approval_pushes_before_download
      [of two_posts_env example_config "[]" "\<lparr>URL_AND_NAME_LIST = [], CACHE = roomy_cache\<rparr>"
        "''a''" "[''a'']" "[]" "example_post ''m1'' ''a''" zero_counters "[]" "[''a'']" "[]"
        roomy_cache "Inr (example_config\<lparr>last_run := ''2021-07-28''\<rparr>, ?c')" ?t] x cap
    by blast
  then have "cache_member ''m1'' ?c' \<and> cache_member ''m2'' ?c'"
    unfolding p by simp
  then show ?thesis using d x by blast
qed

end
